theory Spec2Isabelle
  imports Main "HOL-Library.Sublist"
begin

section \<open>Text\<close>

text \<open>
  A Python \<open>str\<close> is a sequence of Unicode code points. A character is its code point,
  a natural number; a text is a list of them. ASCII literals are written as Isabelle
  strings and converted with \<open>ascii\<close>.
\<close>

type_synonym uchar = nat
type_synonym ustring = "uchar list"

definition ascii :: "string \<Rightarrow> ustring" where
  "ascii s = map of_char s"

text \<open>
  \<open>str.isspace\<close> of one character: the code points Python treats as whitespace,
  which \<open>str.strip()\<close> removes from both ends.
\<close>

definition isspace :: "uchar \<Rightarrow> bool" where
  "isspace c \<longleftrightarrow>
     (9 \<le> c \<and> c \<le> 13) \<or> (28 \<le> c \<and> c \<le> 32) \<or> c = 133 \<or> c = 160 \<or> c = 5760 \<or>
     (8192 \<le> c \<and> c \<le> 8202) \<or> c = 8232 \<or> c = 8233 \<or> c = 8239 \<or> c = 8287 \<or>
     c = 12288"

text \<open>\<open>text.strip()\<close>: leading and trailing whitespace removed.\<close>

definition strip :: "ustring \<Rightarrow> ustring" where
  "strip t = rev (dropWhile isspace (rev (dropWhile isspace t)))"

section \<open>Script detector\<close>

text \<open>
  \<open>hindi_pattern\<close> is the compiled class of the code points U+0900 to U+097F and
  \<open>english_pattern = re.compile(r'[a-zA-Z]')\<close>; \<open>pattern.search(text)\<close> finds a
  character of the class anywhere in the text.
\<close>

definition hindi_pattern :: "uchar \<Rightarrow> bool" where
  "hindi_pattern c \<longleftrightarrow> 2304 \<le> c \<and> c \<le> 2431"

definition english_pattern :: "uchar \<Rightarrow> bool" where
  "english_pattern c \<longleftrightarrow> (97 \<le> c \<and> c \<le> 122) \<or> (65 \<le> c \<and> c \<le> 90)"

definition search :: "(uchar \<Rightarrow> bool) \<Rightarrow> ustring \<Rightarrow> bool" where
  "search cls t = list_ex cls t"

definition detect_language_mix :: "ustring \<Rightarrow> bool \<times> bool" where
  "detect_language_mix t =
     (let has_hindi = search hindi_pattern t;
          has_english = search english_pattern t
      in (has_hindi, has_english))"

section \<open>Sentence segmenter\<close>

text \<open>
  The terminators of \<open>split_sentences\<close>, \<open>char in '.!?\<dots>'\<close>: full stop, exclamation
  mark, question mark, and the three characters U+2021, U+2022 and U+00A7 of the
  source's string literal.
\<close>

definition terminators :: "uchar list" where
  "terminators = [46, 33, 63, 8225, 8226, 167]"

text \<open>
  The loop of \<open>split_sentences\<close>: \<open>sentences\<close> and \<open>current\<close> are the two lists the
  source appends to; a terminator closes \<open>current\<close>.
\<close>

fun split_loop :: "ustring \<Rightarrow> ustring list \<Rightarrow> ustring \<Rightarrow> ustring list \<times> ustring" where
  "split_loop [] sentences current = (sentences, current)"
| "split_loop (char # rest) sentences current =
     (let current = current @ [char]
      in if char \<in> set terminators
         then split_loop rest (sentences @ [current]) []
         else split_loop rest sentences current)"

definition split_sentences :: "ustring \<Rightarrow> ustring list" where
  "split_sentences t =
     (let (sentences, current) = split_loop t [] []
      in if current \<noteq> [] then sentences @ [current] else sentences)"

section \<open>Term preservation filter\<close>

subsection \<open>Character classes of the regular expressions\<close>

text \<open>
  Python's \<open>re\<close> on \<open>str\<close> patterns is Unicode-aware: \<open>\d\<close> is \<open>str.isdecimal\<close>,
  \<open>\w\<close> is \<open>str.isalnum\<close> or the underscore, and \<open>\b\<close> is a change of \<open>\w\<close>-ness.
  Below U+0080 these classes are the ASCII ones. Beyond, they come from the Unicode
  character database of the interpreter, which is not part of the repository: it is a
  parameter of the model.
\<close>

record unicode_db =
  alnum :: "uchar \<Rightarrow> bool"
  decimal :: "uchar \<Rightarrow> bool"

definition is_upper :: "uchar \<Rightarrow> bool" where
  "is_upper c \<longleftrightarrow> 65 \<le> c \<and> c \<le> 90"

definition is_letter :: "uchar \<Rightarrow> bool" where
  "is_letter c \<longleftrightarrow> (97 \<le> c \<and> c \<le> 122) \<or> (65 \<le> c \<and> c \<le> 90)"

definition is_sep :: "uchar \<Rightarrow> bool" where
  "is_sep c \<longleftrightarrow> c = 45 \<or> c = 47 \<or> c = 46"

definition is_digit :: "unicode_db \<Rightarrow> uchar \<Rightarrow> bool" where
  "is_digit U c \<longleftrightarrow> (if c < 128 then 48 \<le> c \<and> c \<le> 57 else decimal U c)"

definition is_word :: "unicode_db \<Rightarrow> uchar \<Rightarrow> bool" where
  "is_word U c \<longleftrightarrow>
     (if c < 128
      then (48 \<le> c \<and> c \<le> 57) \<or> (65 \<le> c \<and> c \<le> 90) \<or> c = 95 \<or> (97 \<le> c \<and> c \<le> 122)
      else alnum U c \<or> decimal U c)"

subsection \<open>A backtracking matcher\<close>

text \<open>
  A pattern is matched against the rest of the text, \<open>t\<close>, with the character before it,
  \<open>prev\<close>, kept for \<open>\b\<close>. A pattern maps a start offset to the offsets where a match
  of it can end, in the order the backtracking engine tries them (a greedy repetition
  tries the longest first). The first end of the whole pattern is the match.
\<close>

type_synonym rx = "uchar option \<Rightarrow> ustring \<Rightarrow> nat \<Rightarrow> nat list"

definition char_before :: "uchar option \<Rightarrow> ustring \<Rightarrow> nat \<Rightarrow> uchar option" where
  "char_before prev t i = (if i = 0 then prev else Some (t ! (i - 1)))"

definition char_at :: "ustring \<Rightarrow> nat \<Rightarrow> uchar option" where
  "char_at t i = (if i < length t then Some (t ! i) else None)"

definition word_opt :: "unicode_db \<Rightarrow> uchar option \<Rightarrow> bool" where
  "word_opt U x = (case x of None \<Rightarrow> False | Some c \<Rightarrow> is_word U c)"

definition rx_wordb :: "unicode_db \<Rightarrow> rx" where
  "rx_wordb U prev t i =
     (if word_opt U (char_before prev t i) \<noteq> word_opt U (char_at t i) then [i] else [])"

definition rx_cls :: "(uchar \<Rightarrow> bool) \<Rightarrow> rx" where
  "rx_cls p prev t i = (if i < length t \<and> p (t ! i) then [Suc i] else [])"

definition rx_seq :: "rx \<Rightarrow> rx \<Rightarrow> rx" where
  "rx_seq r1 r2 prev t i = concat (map (r2 prev t) (r1 prev t i))"

text \<open>
  Greedy repetition: one more iteration first, then none. An iteration consumes at
  least one character, so the length of the text bounds the number of iterations.
\<close>

fun rx_star_upto :: "nat \<Rightarrow> rx \<Rightarrow> rx" where
  "rx_star_upto 0 r prev t i = [i]"
| "rx_star_upto (Suc n) r prev t i =
     concat (map (rx_star_upto n r prev t) (filter (\<lambda>e. i < e) (r prev t i))) @ [i]"

definition rx_star :: "rx \<Rightarrow> rx" where
  "rx_star r prev t i = rx_star_upto (length t) r prev t i"

definition rx_plus :: "rx \<Rightarrow> rx" where
  "rx_plus r = rx_seq r (rx_star r)"

definition rx_match :: "rx \<Rightarrow> uchar option \<Rightarrow> ustring \<Rightarrow> nat option" where
  "rx_match r prev t = (case r prev t 0 of [] \<Rightarrow> None | e # _ \<Rightarrow> Some e)"

text \<open>The two patterns of \<open>preserve_special_terms\<close>:
  \<^verbatim>\<open>\b[A-Z][a-zA-Z]*\b\<close> and \<^verbatim>\<open>\b\d+(?:[-/.]\d+)*\b\<close>.\<close>

definition proper_noun_pattern :: "unicode_db \<Rightarrow> rx" where
  "proper_noun_pattern U =
     rx_seq (rx_wordb U) (rx_seq (rx_cls is_upper) (rx_seq (rx_star (rx_cls is_letter)) (rx_wordb U)))"

definition number_pattern :: "unicode_db \<Rightarrow> rx" where
  "number_pattern U =
     rx_seq (rx_wordb U)
       (rx_seq (rx_plus (rx_cls (is_digit U)))
          (rx_seq (rx_star (rx_seq (rx_cls is_sep) (rx_plus (rx_cls (is_digit U))))) (rx_wordb U)))"

subsection \<open>Placeholders\<close>

text \<open>\<open>str(n)\<close> of a non-negative integer, as the f-string formats \<open>len(preserved)\<close>.\<close>

fun str_nat :: "nat \<Rightarrow> ustring" where
  "str_nat n = (if n < 10 then [48 + n] else str_nat (n div 10) @ [48 + n mod 10])"

declare str_nat.simps [simp del]

definition marker :: "nat \<Rightarrow> ustring" where
  "marker i = ascii ''PRESERVED_'' @ str_nat i"

definition preserve_term :: "ustring \<Rightarrow> ustring list \<Rightarrow> ustring \<times> ustring list" where
  "preserve_term term preserved = (marker (length preserved), preserved @ [term])"

text \<open>
  \<open>re.sub(pattern, lambda m: self._preserve_term(m.group(), preserved), text)\<close>: the text
  is scanned from the left; where the pattern matches, the match is replaced by the
  marker the callback returns and the scan goes on after the match; elsewhere the
  character is copied. \<open>skip\<close> counts the characters of the current match still to be
  passed over. Neither pattern matches the empty string.
\<close>

fun sub_loop :: "rx \<Rightarrow> uchar option \<Rightarrow> ustring \<Rightarrow> nat \<Rightarrow> ustring list \<Rightarrow> ustring \<times> ustring list" where
  "sub_loop r prev [] skip preserved = ([], preserved)"
| "sub_loop r prev (c # cs) skip preserved =
     (if 0 < skip then sub_loop r (Some c) cs (skip - 1) preserved
      else case rx_match r prev (c # cs) of
        None \<Rightarrow>
          (let (out, preserved) = sub_loop r (Some c) cs 0 preserved in (c # out, preserved))
      | Some n \<Rightarrow>
          (let (m, preserved) = preserve_term (take n (c # cs)) preserved;
               (out, preserved) = sub_loop r (Some c) cs (n - 1) preserved
           in (m @ out, preserved)))"

definition re_sub :: "rx \<Rightarrow> ustring \<Rightarrow> ustring list \<Rightarrow> ustring \<times> ustring list" where
  "re_sub r t preserved = sub_loop r None t 0 preserved"

definition preserve_special_terms :: "unicode_db \<Rightarrow> ustring \<Rightarrow> ustring \<times> ustring list" where
  "preserve_special_terms U t =
     (let preserved = [];
          (t, preserved) = re_sub (proper_noun_pattern U) t preserved;
          (t, preserved) = re_sub (number_pattern U) t preserved
      in (t, preserved))"

subsection \<open>Restoration\<close>

text \<open>
  \<open>text.replace(old, new)\<close>: every occurrence of \<open>old\<close>, found from the left without
  overlaps, becomes \<open>new\<close>. (With an empty \<open>old\<close>, Python puts \<open>new\<close> around every
  character.)
\<close>

fun replace_loop :: "ustring \<Rightarrow> ustring \<Rightarrow> ustring \<Rightarrow> nat \<Rightarrow> ustring" where
  "replace_loop old new [] skip = []"
| "replace_loop old new (c # cs) skip =
     (if 0 < skip then replace_loop old new cs (skip - 1)
      else if take (length old) (c # cs) = old
      then new @ replace_loop old new cs (length old - 1)
      else c # replace_loop old new cs 0)"

definition replace :: "ustring \<Rightarrow> ustring \<Rightarrow> ustring \<Rightarrow> ustring" where
  "replace old new t =
     (if old = [] then new @ concat (map (\<lambda>c. c # new) t) else replace_loop old new t 0)"

text \<open>\<open>for i, term in enumerate(preserved): text = text.replace(f"PRESERVED_{i}", term)\<close>\<close>

fun restore_loop :: "nat \<Rightarrow> ustring list \<Rightarrow> ustring \<Rightarrow> ustring" where
  "restore_loop i [] t = t"
| "restore_loop i (term # rest) t = restore_loop (Suc i) rest (replace (marker i) term t)"

definition restore_preserved_terms :: "ustring \<Rightarrow> ustring list \<Rightarrow> ustring" where
  "restore_preserved_terms t preserved = restore_loop 0 preserved t"

section \<open>External translation collaborator\<close>

text \<open>
  \<open>GoogleTranslator(source, target).translate(text)\<close> is a request to a service outside
  the repository. It answers with a text or raises. The model takes the service as a
  parameter: its answer may depend on the request and on everything asked before.
\<close>

datatype lang = Auto | Hi | En

record request =
  source :: lang
  target :: lang
  payload :: ustring

text \<open>
  What a step can raise. \<open>ServiceError\<close> stands for the exceptions of the translation
  library and of the transport, all instances of \<open>Exception\<close>, with their \<open>str(e)\<close>.
  \<open>AttributeError\<close> and \<open>TypeError\<close> are what the interpreter raises on a value of the
  wrong type; they are instances of \<open>Exception\<close> too. \<open>KeyboardInterrupt\<close> and
  \<open>SystemExit\<close> derive from \<open>BaseException\<close> only.
\<close>

datatype pyexc =
  ServiceError ustring | AttributeError ustring | TypeError ustring
  | KeyboardInterrupt | SystemExit

fun isinstance_Exception :: "pyexc \<Rightarrow> bool" where
  "isinstance_Exception (ServiceError msg) = True"
| "isinstance_Exception (AttributeError msg) = True"
| "isinstance_Exception (TypeError msg) = True"
| "isinstance_Exception KeyboardInterrupt = False"
| "isinstance_Exception SystemExit = False"

fun str_exc :: "pyexc \<Rightarrow> ustring" where
  "str_exc (ServiceError msg) = msg"
| "str_exc (AttributeError msg) = msg"
| "str_exc (TypeError msg) = msg"
| "str_exc KeyboardInterrupt = []"
| "str_exc SystemExit = []"

type_synonym response = "pyexc + ustring"
type_synonym service = "(request \<times> response) list \<Rightarrow> request \<Rightarrow> response"

text \<open>
  The effects of a run: the requests sent to the service with their answers, in order,
  and the messages shown with \<open>st.error\<close>.
\<close>

record world =
  calls :: "(request \<times> response) list"
  shown_errors :: "ustring list"

definition hindi_translator :: "lang \<times> lang" where
  "hindi_translator = (Auto, Hi)"

definition english_translator :: "lang \<times> lang" where
  "english_translator = (Hi, En)"

definition auto_translator :: "lang \<times> lang" where
  "auto_translator = (Auto, En)"

definition translator_translate ::
  "service \<Rightarrow> lang \<times> lang \<Rightarrow> ustring \<Rightarrow> world \<Rightarrow> response \<times> world" where
  "translator_translate svc tr t w =
     (let req = \<lparr>source = fst tr, target = snd tr, payload = t\<rparr>;
          ans = svc (calls w) req
      in (ans, w\<lparr>calls := calls w @ [(req, ans)]\<rparr>))"

section \<open>Orchestrator\<close>

text \<open>\<open>' '.join(translated_parts)\<close>\<close>

fun join :: "ustring \<Rightarrow> ustring list \<Rightarrow> ustring" where
  "join sep [] = []"
| "join sep [x] = x"
| "join sep (x # y # ys) = x @ sep @ join sep (y # ys)"

text \<open>
  The \<open>if\<close>/\<open>elif\<close>/\<open>else\<close> of the loop body of \<open>translate\<close>: the translation of one
  sentence, by the script mix the detector found. An exception leaves at the call that
  raised it.
\<close>

definition route :: "service \<Rightarrow> ustring \<Rightarrow> world \<Rightarrow> response \<times> world" where
  "route svc sentence w =
     (let (has_hindi, has_english) = detect_language_mix sentence
      in if has_hindi \<and> has_english then
           (case translator_translate svc hindi_translator sentence w of
              (Inl e, w) \<Rightarrow> (Inl e, w)
            | (Inr hindi_result, w) \<Rightarrow> translator_translate svc english_translator hindi_result w)
         else if has_hindi then translator_translate svc english_translator sentence w
         else translator_translate svc auto_translator sentence w)"

text \<open>The \<open>for sentence in sentences\<close> loop, \<open>translated_parts\<close> being its accumulator.\<close>

fun translate_loop ::
  "service \<Rightarrow> ustring list \<Rightarrow> ustring list \<Rightarrow> world \<Rightarrow> (pyexc + ustring list) \<times> world" where
  "translate_loop svc [] translated_parts w = (Inr translated_parts, w)"
| "translate_loop svc (sentence # rest) translated_parts w =
     (if strip sentence = [] then translate_loop svc rest translated_parts w
      else case route svc sentence w of
        (Inl e, w) \<Rightarrow> (Inl e, w)
      | (Inr result, w) \<Rightarrow> translate_loop svc rest (translated_parts @ [result]) w)"

text \<open>The body of the \<open>try\<close>.\<close>

definition translate_try :: "service \<Rightarrow> ustring \<Rightarrow> world \<Rightarrow> response \<times> world" where
  "translate_try svc t w =
     (if strip t = [] then (Inr [], w)
      else case translate_loop svc (split_sentences t) [] w of
        (Inl e, w) \<Rightarrow> (Inl e, w)
      | (Inr translated_parts, w) \<Rightarrow> (Inr (join (ascii '' '') translated_parts), w))"

definition failure_message :: ustring where
  "failure_message = ascii ''Translation failed. Please try again.''"

text \<open>
  \<open>translate\<close>: the \<open>try\<close> with its handler \<open>except Exception as e\<close>, which shows the
  error and returns the failure message. An exception that is not an instance of
  \<open>Exception\<close> passes the handler and reaches the caller (\<open>Inl\<close>).
\<close>

definition translate :: "service \<Rightarrow> ustring \<Rightarrow> world \<Rightarrow> response \<times> world" where
  "translate svc t w =
     (case translate_try svc t w of
        (Inl e, w) \<Rightarrow>
          (if isinstance_Exception e
           then (Inr failure_message,
                 w\<lparr>shown_errors := shown_errors w @ [ascii ''Translation error: '' @ str_exc e]\<rparr>)
           else (Inl e, w))
      | (Inr result, w) \<Rightarrow> (Inr result, w))"

section \<open>The orchestrator on values of any type\<close>

text \<open>
  Python does not enforce the annotations \<open>text: str\<close> of \<open>translate\<close> and \<open>-> str\<close> of
  the translator: the caller can pass, and the service can answer, a value that is not
  a string. Two such values are \<open>None\<close> and a \<open>bytes\<close> object, a sequence of integers.
  With them, three more steps of \<open>translate\<close> can raise: \<open>text.strip()\<close>,
  \<open>self.split_sentences(text)\<close> and \<open>' '.join(translated_parts)\<close>. This section is
  \<open>translate\<close> again, read on such values; on strings it is the orchestrator of the
  section before.
\<close>

datatype pyval = PStr ustring | PBytes "nat list" | PNone

fun type_name :: "pyval \<Rightarrow> ustring" where
  "type_name (PStr t) = ascii ''str''"
| "type_name (PBytes b) = ascii ''bytes''"
| "type_name PNone = ascii ''NoneType''"

fun is_str :: "pyval \<Rightarrow> bool" where
  "is_str (PStr t) = True"
| "is_str (PBytes b) = False"
| "is_str PNone = False"

record dyn_request =
  dyn_source :: lang
  dyn_target :: lang
  dyn_payload :: pyval

type_synonym dyn_response = "pyexc + pyval"
type_synonym dyn_service = "(dyn_request \<times> dyn_response) list \<Rightarrow> dyn_request \<Rightarrow> dyn_response"

record dyn_world =
  dyn_calls :: "(dyn_request \<times> dyn_response) list"
  dyn_shown_errors :: "ustring list"

definition dyn_translator_translate ::
  "dyn_service \<Rightarrow> lang \<times> lang \<Rightarrow> pyval \<Rightarrow> dyn_world \<Rightarrow> dyn_response \<times> dyn_world" where
  "dyn_translator_translate svc tr v w =
     (let req = \<lparr>dyn_source = fst tr, dyn_target = snd tr, dyn_payload = v\<rparr>;
          ans = svc (dyn_calls w) req
      in (ans, w\<lparr>dyn_calls := dyn_calls w @ [(req, ans)]\<rparr>))"

text \<open>
  \<open>text.strip()\<close>: \<open>bytes.strip()\<close> removes the ASCII whitespace, the space and the
  characters 9 to 13, from both ends; \<open>None\<close> has no such method.
\<close>

definition bytes_isspace :: "nat \<Rightarrow> bool" where
  "bytes_isspace c \<longleftrightarrow> c = 32 \<or> (9 \<le> c \<and> c \<le> 13)"

definition bytes_strip :: "nat list \<Rightarrow> nat list" where
  "bytes_strip b = rev (dropWhile bytes_isspace (rev (dropWhile bytes_isspace b)))"

definition no_strip_message :: ustring where
  "no_strip_message =
     [39] @ ascii ''NoneType'' @ [39] @ ascii '' object has no attribute '' @ [39] @
     ascii ''strip'' @ [39]"

fun py_strip :: "pyval \<Rightarrow> pyexc + pyval" where
  "py_strip (PStr t) = Inr (PStr (strip t))"
| "py_strip (PBytes b) = Inr (PBytes (bytes_strip b))"
| "py_strip PNone = Inl (AttributeError no_strip_message)"

text \<open>\<open>not v\<close>: an empty string, an empty \<open>bytes\<close> object and \<open>None\<close> are false.\<close>

fun py_not :: "pyval \<Rightarrow> bool" where
  "py_not (PStr t) = (t = [])"
| "py_not (PBytes b) = (b = [])"
| "py_not PNone = True"

text \<open>
  \<open>self.split_sentences(text)\<close>: the loop \<open>for char in text\<close> gives the integers of a
  \<open>bytes\<close> object, and \<open>char in '...'\<close> raises \<open>TypeError\<close> on the first of them; \<open>None\<close>
  cannot be iterated.
\<close>

definition in_string_message :: ustring where
  "in_string_message =
     [39] @ ascii ''in <string>'' @ [39] @ ascii '' requires string as left operand, not int''"

definition not_iterable_message :: ustring where
  "not_iterable_message = [39] @ ascii ''NoneType'' @ [39] @ ascii '' object is not iterable''"

fun py_split_sentences :: "pyval \<Rightarrow> pyexc + ustring list" where
  "py_split_sentences (PStr t) = Inr (split_sentences t)"
| "py_split_sentences (PBytes []) = Inr []"
| "py_split_sentences (PBytes (c # cs)) = Inl (TypeError in_string_message)"
| "py_split_sentences PNone = Inl (TypeError not_iterable_message)"

text \<open>\<open>' '.join(parts)\<close>: the first part that is not a string raises \<open>TypeError\<close>; \<open>i\<close>
  counts the parts before it.\<close>

definition no_str_message :: "nat \<Rightarrow> pyval \<Rightarrow> ustring" where
  "no_str_message i v =
     ascii ''sequence item '' @ str_nat i @ ascii '': expected str instance, '' @
     type_name v @ ascii '' found''"

fun py_join_items :: "pyval list \<Rightarrow> nat \<Rightarrow> pyexc + ustring list" where
  "py_join_items [] i = Inr []"
| "py_join_items (PStr x # parts) i =
     (case py_join_items parts (Suc i) of Inl e \<Rightarrow> Inl e | Inr xs \<Rightarrow> Inr (x # xs))"
| "py_join_items (PBytes b # parts) i = Inl (TypeError (no_str_message i (PBytes b)))"
| "py_join_items (PNone # parts) i = Inl (TypeError (no_str_message i PNone))"

definition py_join :: "ustring \<Rightarrow> pyval list \<Rightarrow> pyexc + ustring" where
  "py_join sep parts =
     (case py_join_items parts 0 of Inl e \<Rightarrow> Inl e | Inr xs \<Rightarrow> Inr (join sep xs))"

text \<open>The \<open>if\<close>/\<open>elif\<close>/\<open>else\<close> of the loop body; \<open>hindi_result\<close> is passed on as it is.\<close>

definition dyn_route :: "dyn_service \<Rightarrow> ustring \<Rightarrow> dyn_world \<Rightarrow> dyn_response \<times> dyn_world" where
  "dyn_route svc sentence w =
     (let (has_hindi, has_english) = detect_language_mix sentence
      in if has_hindi \<and> has_english then
           (case dyn_translator_translate svc hindi_translator (PStr sentence) w of
              (Inl e, w) \<Rightarrow> (Inl e, w)
            | (Inr hindi_result, w) \<Rightarrow>
                dyn_translator_translate svc english_translator hindi_result w)
         else if has_hindi then dyn_translator_translate svc english_translator (PStr sentence) w
         else dyn_translator_translate svc auto_translator (PStr sentence) w)"

fun dyn_translate_loop ::
  "dyn_service \<Rightarrow> ustring list \<Rightarrow> pyval list \<Rightarrow> dyn_world \<Rightarrow> (pyexc + pyval list) \<times> dyn_world" where
  "dyn_translate_loop svc [] translated_parts w = (Inr translated_parts, w)"
| "dyn_translate_loop svc (sentence # rest) translated_parts w =
     (if strip sentence = [] then dyn_translate_loop svc rest translated_parts w
      else case dyn_route svc sentence w of
        (Inl e, w) \<Rightarrow> (Inl e, w)
      | (Inr result, w) \<Rightarrow> dyn_translate_loop svc rest (translated_parts @ [result]) w)"

text \<open>The body of the \<open>try\<close>.\<close>

definition dyn_translate_try ::
  "dyn_service \<Rightarrow> pyval \<Rightarrow> dyn_world \<Rightarrow> (pyexc + ustring) \<times> dyn_world" where
  "dyn_translate_try svc text w =
     (case py_strip text of
        Inl e \<Rightarrow> (Inl e, w)
      | Inr stripped \<Rightarrow>
          if py_not stripped then (Inr [], w)
          else case py_split_sentences text of
            Inl e \<Rightarrow> (Inl e, w)
          | Inr sentences \<Rightarrow>
              (case dyn_translate_loop svc sentences [] w of
                 (Inl e, w) \<Rightarrow> (Inl e, w)
               | (Inr translated_parts, w) \<Rightarrow>
                   (case py_join (ascii '' '') translated_parts of
                      Inl e \<Rightarrow> (Inl e, w)
                    | Inr result \<Rightarrow> (Inr result, w))))"

text \<open>
  The \<open>try\<close> with its handler \<open>except Exception as e\<close>. The handler calls \<open>st.error\<close>, a
  function of the user interface library: \<open>ui message\<close> is \<open>None\<close> when it returns and the
  exception it raises otherwise. An exception raised inside the handler is not caught.
\<close>

type_synonym ui = "ustring \<Rightarrow> pyexc option"

definition error_report :: "pyexc \<Rightarrow> ustring" where
  "error_report e = ascii ''Translation error: '' @ str_exc e"

definition dyn_translate ::
  "ui \<Rightarrow> dyn_service \<Rightarrow> pyval \<Rightarrow> dyn_world \<Rightarrow> (pyexc + ustring) \<times> dyn_world" where
  "dyn_translate st_error svc text w =
     (case dyn_translate_try svc text w of
        (Inl e, w) \<Rightarrow>
          (if isinstance_Exception e
           then (case st_error (error_report e) of
                   Some e' \<Rightarrow> (Inl e', w)
                 | None \<Rightarrow>
                     (Inr failure_message,
                      w\<lparr>dyn_shown_errors := dyn_shown_errors w @ [error_report e]\<rparr>))
           else (Inl e, w))
      | (Inr result, w) \<Rightarrow> (Inr result, w))"

section \<open>Notions used in the statements\<close>

text \<open>
  A span that a terminator closed: it is not empty, its last character is a terminator
  and no other character of it is one.
\<close>

definition closed_span :: "ustring \<Rightarrow> bool" where
  "closed_span s \<longleftrightarrow>
     s \<noteq> [] \<and> last s \<in> set terminators \<and> (\<forall>c\<in>set (butlast s). c \<notin> set terminators)"

text \<open>A world in which nothing has happened yet.\<close>

definition initial_world :: world where
  "initial_world = \<lparr>calls = [], shown_errors = []\<rparr>"

text \<open>Sample services for the concrete runs: one that answers every request with its
  payload, unchanged.\<close>

definition echo_service :: service where
  "echo_service history req = Inr (payload req)"


text \<open>
  A service that always answers, and whose answer depends on the request only, is a
  function from requests to texts.
\<close>

definition stateless :: "(request \<Rightarrow> ustring) \<Rightarrow> service" where
  "stateless f history req = Inr (f req)"

text \<open>
  The decision table of the router as the specification gives it (section 4.4), for a
  service \<open>f\<close> that always answers and whose answers depend on the request only: the
  translation of a sentence.
\<close>

definition route_table :: "(request \<Rightarrow> ustring) \<Rightarrow> ustring \<Rightarrow> ustring" where
  "route_table f s =
     (case detect_language_mix s of
        (True, True) \<Rightarrow>
          f \<lparr>source = Hi, target = En, payload = f \<lparr>source = Auto, target = Hi, payload = s\<rparr>\<rparr>
      | (True, False) \<Rightarrow> f \<lparr>source = Hi, target = En, payload = s\<rparr>
      | (False, _) \<Rightarrow> f \<lparr>source = Auto, target = En, payload = s\<rparr>)"

text \<open>
  The orchestrator as section 4.5 of the specification words it: every non-blank
  sentence is masked by the preservation filter, the masked sentence is routed, the
  preserved terms are restored into the answer, and the results are joined by a space.
\<close>

definition translate_claimed :: "unicode_db \<Rightarrow> (request \<Rightarrow> ustring) \<Rightarrow> ustring \<Rightarrow> ustring" where
  "translate_claimed U f t =
     join (ascii '' '')
       (map (\<lambda>s. let (masked, preserved) = preserve_special_terms U s
                 in restore_preserved_terms (route_table f masked) preserved)
          (filter (\<lambda>s. strip s \<noteq> []) (split_sentences t)))"

text \<open>A character database that knows no letter or digit beyond ASCII.\<close>

definition ascii_db :: unicode_db where
  "ascii_db = \<lparr>alnum = (\<lambda>c. False), decimal = (\<lambda>c. False)\<rparr>"

text \<open>
  More sample services: one that knows a single greeting, one whose second answer is a
  quota error, and one that is interrupted.
\<close>

definition greeting_service :: "request \<Rightarrow> ustring" where
  "greeting_service req =
     (if payload req = ascii ''Namaste John'' then ascii ''Hello John'' else payload req)"


definition interrupted_service :: service where
  "interrupted_service history req = Inl KeyboardInterrupt"

text \<open>The mixed sentence of the specification: a Devanagari word, then
  \<open>movie dekhne ja raha hoon\<close>.\<close>

definition mixed_example :: ustring where
  "mixed_example = [2350, 2376, 2306, 32] @ ascii ''movie dekhne ja raha hoon''"

text \<open>A service that answers every request, whatever was asked before.\<close>

definition answers :: "service \<Rightarrow> bool" where
  "answers svc \<longleftrightarrow> (\<forall>history req. \<exists>a. svc history req = Inr a)"

fun answer_text :: "response \<Rightarrow> ustring" where
  "answer_text (Inr a) = a"
| "answer_text (Inl e) = []"

text \<open>
  The decision table of the router as the specification gives it (section 4.4), for any
  service: the exchanges that one sentence takes after the exchanges \<open>history\<close>, the
  sentence itself being the payload of the first request; and the exchanges of a list
  of sentences, one after the other.
\<close>

definition table_exchanges ::
  "service \<Rightarrow> (request \<times> response) list \<Rightarrow> ustring \<Rightarrow> (request \<times> response) list" where
  "table_exchanges svc history s =
     (case detect_language_mix s of
        (True, True) \<Rightarrow>
          (let q1 = \<lparr>source = Auto, target = Hi, payload = s\<rparr>;
               a1 = svc history q1;
               q2 = \<lparr>source = Hi, target = En, payload = answer_text a1\<rparr>;
               a2 = svc (history @ [(q1, a1)]) q2
           in [(q1, a1), (q2, a2)])
      | (True, False) \<Rightarrow>
          (let q = \<lparr>source = Hi, target = En, payload = s\<rparr> in [(q, svc history q)])
      | (False, _) \<Rightarrow>
          (let q = \<lparr>source = Auto, target = En, payload = s\<rparr> in [(q, svc history q)]))"

fun table_run ::
  "service \<Rightarrow> (request \<times> response) list \<Rightarrow> ustring list \<Rightarrow> (request \<times> response) list list" where
  "table_run svc history [] = []"
| "table_run svc history (s # ss) =
     table_exchanges svc history s #
     table_run svc (history @ table_exchanges svc history s) ss"

text \<open>A sample service whose answers depend on the history: it echoes the payload and
  adds one exclamation mark for every request it has answered before.\<close>

definition counting_service :: service where
  "counting_service history req = Inr (payload req @ replicate (length history) 33)"

text \<open>A string-typed service, request and world, read as values of any type, and back.\<close>

definition dyn_request_of :: "request \<Rightarrow> dyn_request" where
  "dyn_request_of q = \<lparr>dyn_source = source q, dyn_target = target q, dyn_payload = PStr (payload q)\<rparr>"

fun dyn_response_of :: "response \<Rightarrow> dyn_response" where
  "dyn_response_of (Inl e) = Inl e"
| "dyn_response_of (Inr a) = Inr (PStr a)"

definition dyn_world_of :: "world \<Rightarrow> dyn_world" where
  "dyn_world_of w =
     \<lparr>dyn_calls = map (\<lambda>x. (dyn_request_of (fst x), dyn_response_of (snd x))) (calls w),
      dyn_shown_errors = shown_errors w\<rparr>"

fun text_of :: "pyval \<Rightarrow> ustring" where
  "text_of (PStr t) = t"
| "text_of (PBytes b) = []"
| "text_of PNone = []"

definition request_of :: "dyn_request \<Rightarrow> request" where
  "request_of q = \<lparr>source = dyn_source q, target = dyn_target q, payload = text_of (dyn_payload q)\<rparr>"

fun response_of :: "dyn_response \<Rightarrow> response" where
  "response_of (Inl e) = Inl e"
| "response_of (Inr v) = Inr (text_of v)"

definition dyn_service_of :: "service \<Rightarrow> dyn_service" where
  "dyn_service_of svc history req =
     dyn_response_of
       (svc (map (\<lambda>x. (request_of (fst x), response_of (snd x))) history) (request_of req))"

text \<open>A run of exchanges in which the service never raised.\<close>

definition dyn_no_failure :: "(dyn_request \<times> dyn_response) list \<Rightarrow> bool" where
  "dyn_no_failure xs = list_all (\<lambda>x. \<not> isl (snd x)) xs"

definition dyn_initial_world :: dyn_world where
  "dyn_initial_world = \<lparr>dyn_calls = [], dyn_shown_errors = []\<rparr>"

text \<open>Sample collaborators: a user interface that shows every message, one that raises;
  a service that answers \<open>None\<close>, one that raises an error of its own, one that is
  interrupted.\<close>

definition quiet_ui :: ui where
  "quiet_ui message = None"

definition broken_ui :: ui where
  "broken_ui message = Some (ServiceError (ascii ''no session''))"

definition none_service :: dyn_service where
  "none_service history req = Inr PNone"

definition dyn_failing_service :: dyn_service where
  "dyn_failing_service history req = Inl (ServiceError (ascii ''quota''))"

definition dyn_interrupted_service :: dyn_service where
  "dyn_interrupted_service history req = Inl KeyboardInterrupt"

subsection \<open>Placeholders in a text\<close>

text \<open>
  What the invariant of the preserved terms speaks about: the placeholders that a text
  shows. A placeholder is the literal \<open>PRESERVED_\<close> followed by decimal digits, as many
  as there are; its index is their value. A text is read from the left, placeholder by
  placeholder and, elsewhere, character by character.
\<close>

definition ascii_digit :: "uchar \<Rightarrow> bool" where
  "ascii_digit c \<longleftrightarrow> 48 \<le> c \<and> c \<le> 57"

definition nat_of_digits :: "ustring \<Rightarrow> nat" where
  "nat_of_digits ds = foldl (\<lambda>a d. 10 * a + (d - 48)) 0 ds"

definition token_at :: "ustring \<Rightarrow> (nat \<times> nat) option" where
  "token_at t =
     (let ds = takeWhile ascii_digit (drop 10 t)
      in if take 10 t = ascii ''PRESERVED_'' \<and> ds \<noteq> []
         then Some (nat_of_digits ds, 10 + length ds) else None)"

datatype tok = Placeholder nat | Plain uchar

fun tokens_loop :: "ustring \<Rightarrow> nat \<Rightarrow> tok list" where
  "tokens_loop [] skip = []"
| "tokens_loop (c # cs) skip =
     (if 0 < skip then tokens_loop cs (skip - 1)
      else case token_at (c # cs) of
        Some (k, n) \<Rightarrow> Placeholder k # tokens_loop cs (n - 1)
      | None \<Rightarrow> Plain c # tokens_loop cs 0)"

definition tokens :: "ustring \<Rightarrow> tok list" where
  "tokens t = tokens_loop t 0"

fun index_of :: "tok \<Rightarrow> nat list" where
  "index_of (Placeholder k) = [k]"
| "index_of (Plain c) = []"

definition placeholder_indices :: "ustring \<Rightarrow> nat list" where
  "placeholder_indices t = concat (map index_of (tokens t))"

text \<open>
  The term a placeholder stands for is the entry of the list at its index. \<open>expand\<close>
  puts the terms in the place of the placeholders, all at once; a placeholder whose
  index is beyond the list stays.
\<close>

fun term_of :: "ustring list \<Rightarrow> tok \<Rightarrow> ustring" where
  "term_of preserved (Placeholder k) = (if k < length preserved then preserved ! k else marker k)"
| "term_of preserved (Plain c) = [c]"

definition expand :: "ustring list \<Rightarrow> ustring \<Rightarrow> ustring" where
  "expand preserved t = concat (map (term_of preserved) (tokens t))"

text \<open>
  For the proofs: the placeholders of the indices from \<open>base\<close> on, taken back to the
  characters of their terms, the other tokens kept.
\<close>

fun unmask :: "nat \<Rightarrow> ustring list \<Rightarrow> tok \<Rightarrow> tok list" where
  "unmask base news (Placeholder k) =
     (if base \<le> k \<and> k < base + length news then map Plain (news ! (k - base))
      else [Placeholder k])"
| "unmask base news (Plain c) = [Plain c]"

text \<open>
  For the proofs: what the two patterns have in common. A match is not empty, holds no
  underscore, starts with a word character at a word boundary and ends at one.
\<close>

definition delimited :: "unicode_db \<Rightarrow> rx \<Rightarrow> bool" where
  "delimited U r \<longleftrightarrow>
     (\<forall>prev t n. rx_match r prev t = Some n \<longrightarrow>
        0 < n \<and> n \<le> length t \<and> 95 \<notin> set (take n t) \<and>
        (n = length t \<or> \<not> is_word U (t ! n)) \<and>
        is_word U (t ! 0) \<and> \<not> word_opt U prev)"

text \<open>
  For the proofs: every end a pattern offers lies at or after the start and within the
  text, and the characters between satisfy \<open>Q\<close>; and: every end lies after the start and
  the character before it satisfies \<open>Q\<close>.
\<close>

definition rx_within :: "(uchar \<Rightarrow> bool) \<Rightarrow> rx \<Rightarrow> bool" where
  "rx_within Q r \<longleftrightarrow>
     (\<forall>prev t i e. e \<in> set (r prev t i) \<longrightarrow>
        i \<le> e \<and> e \<le> length t \<and> (\<forall>j. i \<le> j \<and> j < e \<longrightarrow> Q (t ! j)))"

definition rx_ends :: "(uchar \<Rightarrow> bool) \<Rightarrow> rx \<Rightarrow> bool" where
  "rx_ends Q r \<longleftrightarrow> (\<forall>prev t i e. e \<in> set (r prev t i) \<longrightarrow> i < e \<and> Q (t ! (e - 1)))"

text \<open>For the proofs: the two patterns without their word boundaries.\<close>

definition proper_noun_body :: rx where
  "proper_noun_body = rx_seq (rx_cls is_upper) (rx_star (rx_cls is_letter))"

definition number_body :: "unicode_db \<Rightarrow> rx" where
  "number_body U =
     rx_seq (rx_plus (rx_cls (is_digit U)))
       (rx_star (rx_seq (rx_cls is_sep) (rx_plus (rx_cls (is_digit U)))))"

text \<open>
  The shape of the terms: a capitalised word is an upper-case letter followed by
  letters; a numeric token starts and ends with a digit and holds digits and the
  separators \<open>-\<close>, \<open>/\<close> and \<open>.\<close> only.
\<close>

definition capitalised_word :: "ustring \<Rightarrow> bool" where
  "capitalised_word x \<longleftrightarrow> x \<noteq> [] \<and> is_upper (hd x) \<and> list_all is_letter x"

definition numeric_token :: "unicode_db \<Rightarrow> ustring \<Rightarrow> bool" where
  "numeric_token U x \<longleftrightarrow>
     x \<noteq> [] \<and> is_digit U (hd x) \<and> is_digit U (last x) \<and>
     list_all (\<lambda>c. is_digit U c \<or> is_sep c) x"

section \<open>Whitespace\<close>

lemma strip_empty_iff: "strip t = [] \<longleftrightarrow> (\<forall>c\<in>set t. isspace c)"
proof
  assume "strip t = []"
  then have a: "\<forall>x\<in>set (dropWhile isspace t). isspace x"
    by (simp add: strip_def)
  have "dropWhile isspace t = []"
  proof (rule ccontr)
    assume n: "dropWhile isspace t \<noteq> []"
    then have "\<not> isspace (hd (dropWhile isspace t))" by (rule hd_dropWhile)
    moreover from n have "hd (dropWhile isspace t) \<in> set (dropWhile isspace t)" by simp
    ultimately show False using a by blast
  qed
  then show "\<forall>c\<in>set t. isspace c" by simp
next
  assume "\<forall>c\<in>set t. isspace c"
  then show "strip t = []" by (auto simp: strip_def dest: set_dropWhileD)
qed

lemma isspace_not_script: "isspace c \<Longrightarrow> \<not> hindi_pattern c \<and> \<not> english_pattern c"
  by (auto simp: isspace_def hindi_pattern_def english_pattern_def)

section \<open>Properties of the segmenter\<close>

lemma split_loop_concat:
  "split_loop t ss cur = (ss', cur') \<Longrightarrow> concat ss' @ cur' = concat ss @ cur @ t"
proof (induction t arbitrary: ss cur)
  case Nil
  then show ?case by simp
next
  case (Cons c t)
  show ?case
  proof (cases "c \<in> set terminators")
    case True
    with Cons.prems have "split_loop t (ss @ [cur @ [c]]) [] = (ss', cur')"
      by simp
    from Cons.IH [OF this] show ?thesis by simp
  next
    case False
    with Cons.prems have "split_loop t ss (cur @ [c]) = (ss', cur')"
      by simp
    from Cons.IH [OF this] show ?thesis by simp
  qed
qed

lemma split_loop_spans:
  "split_loop t ss cur = (ss', cur') \<Longrightarrow> \<forall>s\<in>set ss. closed_span s \<Longrightarrow>
   \<forall>c\<in>set cur. c \<notin> set terminators \<Longrightarrow>
   (\<forall>s\<in>set ss'. closed_span s) \<and> (\<forall>c\<in>set cur'. c \<notin> set terminators)"
proof (induction t arbitrary: ss cur)
  case Nil
  then show ?case by simp
next
  case (Cons c t)
  show ?case
  proof (cases "c \<in> set terminators")
    case True
    with Cons.prems(1) have run: "split_loop t (ss @ [cur @ [c]]) [] = (ss', cur')"
      by simp
    have "closed_span (cur @ [c])"
      using True Cons.prems(3) by (simp add: closed_span_def)
    with Cons.prems(2) have "\<forall>s\<in>set (ss @ [cur @ [c]]). closed_span s" by simp
    from Cons.IH [OF run this] show ?thesis by simp
  next
    case False
    with Cons.prems(1) have run: "split_loop t ss (cur @ [c]) = (ss', cur')"
      by simp
    from False Cons.prems(3) have "\<forall>x\<in>set (cur @ [c]). x \<notin> set terminators" by simp
    from Cons.IH [OF run Cons.prems(2) this] show ?thesis by simp
  qed
qed

text \<open>
  Claim C3. For every text, the spans of \<open>split_sentences\<close>, concatenated in order, are
  the text again. The terminator set is the six characters \<open>.\<close>, \<open>!\<close>, \<open>?\<close>, U+2021,
  U+2022 and U+00A7. A span is closed exactly at a terminator: no span is empty, a
  terminator occurs in a span only as its last character, and every span but the last
  one ends with a terminator; what follows the last terminator is the final span.
\<close>

theorem split_sentences_lossless:
  "concat (split_sentences t) = t \<and>
   set terminators = {46, 33, 63, 8225, 8226, 167} \<and>
   (\<forall>s\<in>set (split_sentences t). s \<noteq> [] \<and> (\<forall>c\<in>set (butlast s). c \<notin> set terminators)) \<and>
   (\<forall>s\<in>set (butlast (split_sentences t)). last s \<in> set terminators)"
proof -
  obtain ss cur where run: "split_loop t [] [] = (ss, cur)" by (cases "split_loop t [] []")
  from split_loop_concat [OF run] have c: "concat ss @ cur = t" by simp
  from split_loop_spans [OF run] have
    sp: "\<forall>s\<in>set ss. closed_span s" and cu: "\<forall>c\<in>set cur. c \<notin> set terminators" by simp_all
  have ts: "set terminators = {46, 33, 63, 8225, 8226, 167}"
    by (simp add: terminators_def)
  have rest: "concat (split_sentences t) = t \<and>
   (\<forall>s\<in>set (split_sentences t). s \<noteq> [] \<and> (\<forall>c\<in>set (butlast s). c \<notin> set terminators)) \<and>
   (\<forall>s\<in>set (butlast (split_sentences t)). last s \<in> set terminators)"
  proof (cases "cur = []")
    case True
    then have eq: "split_sentences t = ss" using run by (simp add: split_sentences_def)
    have "\<forall>s\<in>set (butlast ss). closed_span s" using sp by (meson in_set_butlastD)
    with eq c True sp show ?thesis by (auto simp: closed_span_def)
  next
    case False
    then have eq: "split_sentences t = ss @ [cur]" using run by (simp add: split_sentences_def)
    have "\<forall>c\<in>set (butlast cur). c \<notin> set terminators" using cu by (meson in_set_butlastD)
    with eq c False sp show ?thesis by (auto simp: closed_span_def butlast_append)
  qed
  from rest ts show ?thesis by blast
qed

theorem split_sentences_lossless_witness:
  "split_sentences (ascii ''Hi. Go! ok'') = [ascii ''Hi.'', ascii '' Go!'', ascii '' ok''] \<and>
   concat (split_sentences (ascii ''Hi. Go! ok'')) = ascii ''Hi. Go! ok'' \<and>
   last (ascii ''Hi.'') \<in> set terminators \<and> last (ascii '' Go!'') \<in> set terminators \<and>
   ascii '' ok'' \<noteq> [] \<and> last (butlast (ascii '' Go!'')) \<notin> set terminators"
proof -
  have eq: "split_sentences (ascii ''Hi. Go! ok'') = [ascii ''Hi.'', ascii '' Go!'', ascii '' ok'']"
    by (simp add: split_sentences_def ascii_def terminators_def)
  from split_sentences_lossless [of "ascii ''Hi. Go! ok''"] have
    c: "concat (split_sentences (ascii ''Hi. Go! ok'')) = ascii ''Hi. Go! ok''" and
    i: "\<forall>s\<in>set (split_sentences (ascii ''Hi. Go! ok'')).
          s \<noteq> [] \<and> (\<forall>c\<in>set (butlast s). c \<notin> set terminators)" and
    l: "\<forall>s\<in>set (butlast (split_sentences (ascii ''Hi. Go! ok''))). last s \<in> set terminators"
    by blast+
  from l have l': "last (ascii ''Hi.'') \<in> set terminators \<and> last (ascii '' Go!'') \<in> set terminators"
    unfolding eq by simp
  from i have i': "ascii '' ok'' \<noteq> [] \<and> (\<forall>c\<in>set (butlast (ascii '' Go!'')). c \<notin> set terminators)"
    unfolding eq by simp
  then have "last (butlast (ascii '' Go!'')) \<notin> set terminators"
    by (simp add: ascii_def)
  with eq c l' i' show ?thesis by blast
qed

section \<open>Properties of the script detector\<close>

text \<open>
  Claim C8. The script detector answers \<open>(False, False)\<close> on every span that is empty
  or whitespace only; on the three spans of the specification (the Devanagari word
  U+0930 U+093E U+092E, \<open>Ram\<close>, and both with a space between) it answers
  \<open>(True, False)\<close>, \<open>(False, True)\<close> and \<open>(True, True)\<close>; Hindi presence is a character
  in U+0900 to U+097F and English presence an ASCII letter.
\<close>

theorem detect_language_mix_spec:
  "(strip t = [] \<longrightarrow> detect_language_mix t = (False, False)) \<and>
   detect_language_mix [2352, 2366, 2350] = (True, False) \<and>
   detect_language_mix (ascii ''Ram'') = (False, True) \<and>
   detect_language_mix ([2352, 2366, 2350, 32] @ ascii ''Ram'') = (True, True) \<and>
   fst (detect_language_mix t) = (\<exists>c\<in>set t. 2304 \<le> c \<and> c \<le> 2431) \<and>
   snd (detect_language_mix t) = (\<exists>c\<in>set t. (65 \<le> c \<and> c \<le> 90) \<or> (97 \<le> c \<and> c \<le> 122))"
proof -
  have blank: "strip t = [] \<longrightarrow> detect_language_mix t = (False, False)"
    using isspace_not_script
    by (auto simp: strip_empty_iff detect_language_mix_def search_def list_ex_iff)
  have ex: "detect_language_mix [2352, 2366, 2350] = (True, False)"
    "detect_language_mix (ascii ''Ram'') = (False, True)"
    "detect_language_mix ([2352, 2366, 2350, 32] @ ascii ''Ram'') = (True, True)"
    by (simp_all add: detect_language_mix_def search_def ascii_def hindi_pattern_def
        english_pattern_def)
  have cls: "fst (detect_language_mix t) = (\<exists>c\<in>set t. 2304 \<le> c \<and> c \<le> 2431)"
    "snd (detect_language_mix t) = (\<exists>c\<in>set t. (65 \<le> c \<and> c \<le> 90) \<or> (97 \<le> c \<and> c \<le> 122))"
    by (auto simp: detect_language_mix_def search_def list_ex_iff hindi_pattern_def
        english_pattern_def)
  from blank ex cls show ?thesis by blast
qed

theorem detect_language_mix_spec_witness:
  "strip [32, 9, 12288] = [] \<and> detect_language_mix [32, 9, 12288] = (False, False) \<and>
   strip [] = [] \<and> detect_language_mix [] = (False, False)"
proof -
  have a: "strip [32, 9, 12288] = []" by (simp add: strip_def isspace_def)
  have b: "strip [] = []" by (simp add: strip_def)
  from a b detect_language_mix_spec [of "[32, 9, 12288]"] detect_language_mix_spec [of "[]"]
  show ?thesis by blast
qed

section \<open>Properties of the orchestrator\<close>

text \<open>
  Claim C6. On an input that is empty or whitespace only, \<open>translate\<close> returns the empty
  string and the world is the one it started in: no request is sent to the
  translation service (and nothing else happens).
\<close>

theorem translate_blank:
  "strip t = [] \<Longrightarrow> translate svc t w = (Inr [], w)"
  by (simp add: translate_def translate_try_def)

theorem translate_blank_witness:
  "strip [32, 10, 32] = [] \<and>
   translate echo_service [32, 10, 32] initial_world = (Inr [], initial_world) \<and>
   calls (snd (translate echo_service [] initial_world)) = []"
proof -
  have a: "strip [32, 10, 32] = []" by (simp add: strip_def isspace_def)
  have b: "strip [] = []" by (simp add: strip_def)
  from translate_blank [OF a, of echo_service initial_world]
    translate_blank [OF b, of echo_service initial_world] a
  show ?thesis by (simp add: initial_world_def)
qed

lemmas run_defs = translate_def translate_try_def split_sentences_def terminators_def
  strip_def isspace_def ascii_def route_def detect_language_mix_def search_def
  hindi_pattern_def english_pattern_def translator_translate_def auto_translator_def
  hindi_translator_def english_translator_def initial_world_def Let_def failure_message_def

subsection \<open>The log of a run\<close>











subsection \<open>Concrete runs\<close>


lemma run_interrupted:
  "translate interrupted_service (ascii ''Hi'') initial_world =
   (Inl KeyboardInterrupt,
    \<lparr>calls = [(\<lparr>source = Auto, target = En, payload = ascii ''Hi''\<rparr>, Inl KeyboardInterrupt)],
     shown_errors = []\<rparr>)"
  by (simp add: run_defs interrupted_service_def)



subsection \<open>Routing\<close>

text \<open>
  Claim C4. The path of a sentence through the router is fixed by the answer of the
  script detector. Devanagari and Latin letters: the sentence is sent for translation
  to Hindi with the source detected automatically, and the Hindi answer is sent for
  translation from Hindi to English, whose answer is the result (when the first request
  raises, the second one is not sent). Devanagari without Latin letters: one request,
  Hindi to English. No Devanagari: one request, to English with the source detected
  automatically.
\<close>

theorem route_by_script:
  "(detect_language_mix s = (True, True) \<longrightarrow>
      (\<forall>h. svc (calls w) \<lparr>source = Auto, target = Hi, payload = s\<rparr> = Inr h \<longrightarrow>
         route svc s w =
           (svc (calls w @ [(\<lparr>source = Auto, target = Hi, payload = s\<rparr>, Inr h)])
              \<lparr>source = Hi, target = En, payload = h\<rparr>,
            w\<lparr>calls := calls w @
              [(\<lparr>source = Auto, target = Hi, payload = s\<rparr>, Inr h),
               (\<lparr>source = Hi, target = En, payload = h\<rparr>,
                svc (calls w @ [(\<lparr>source = Auto, target = Hi, payload = s\<rparr>, Inr h)])
                  \<lparr>source = Hi, target = En, payload = h\<rparr>)]\<rparr>)) \<and>
      (\<forall>e. svc (calls w) \<lparr>source = Auto, target = Hi, payload = s\<rparr> = Inl e \<longrightarrow>
         route svc s w =
           (Inl e, w\<lparr>calls := calls w @ [(\<lparr>source = Auto, target = Hi, payload = s\<rparr>, Inl e)]\<rparr>))) \<and>
   (detect_language_mix s = (True, False) \<longrightarrow>
      route svc s w =
        (svc (calls w) \<lparr>source = Hi, target = En, payload = s\<rparr>,
         w\<lparr>calls := calls w @
           [(\<lparr>source = Hi, target = En, payload = s\<rparr>,
             svc (calls w) \<lparr>source = Hi, target = En, payload = s\<rparr>)]\<rparr>)) \<and>
   (fst (detect_language_mix s) = False \<longrightarrow>
      route svc s w =
        (svc (calls w) \<lparr>source = Auto, target = En, payload = s\<rparr>,
         w\<lparr>calls := calls w @
           [(\<lparr>source = Auto, target = En, payload = s\<rparr>,
             svc (calls w) \<lparr>source = Auto, target = En, payload = s\<rparr>)]\<rparr>))"
proof -
  obtain hh he where d: "detect_language_mix s = (hh, he)" by (cases "detect_language_mix s")
  show ?thesis
    by (simp add: route_def d translator_translate_def hindi_translator_def
        english_translator_def auto_translator_def Let_def)
qed

theorem route_by_script_witness:
  "detect_language_mix mixed_example = (True, True) \<and>
   route echo_service mixed_example initial_world =
     (Inr mixed_example,
      \<lparr>calls = [(\<lparr>source = Auto, target = Hi, payload = mixed_example\<rparr>, Inr mixed_example),
                (\<lparr>source = Hi, target = En, payload = mixed_example\<rparr>, Inr mixed_example)],
       shown_errors = []\<rparr>) \<and>
   detect_language_mix [2352, 2366, 2350] = (True, False) \<and>
   route echo_service [2352, 2366, 2350] initial_world =
     (Inr [2352, 2366, 2350],
      \<lparr>calls = [(\<lparr>source = Hi, target = En, payload = [2352, 2366, 2350]\<rparr>, Inr [2352, 2366, 2350])],
       shown_errors = []\<rparr>) \<and>
   fst (detect_language_mix (ascii ''Ram'')) = False \<and>
   route echo_service (ascii ''Ram'') initial_world =
     (Inr (ascii ''Ram''),
      \<lparr>calls = [(\<lparr>source = Auto, target = En, payload = ascii ''Ram''\<rparr>, Inr (ascii ''Ram''))],
       shown_errors = []\<rparr>)"
proof -
  have a: "detect_language_mix mixed_example = (True, True)"
    by (simp add: detect_language_mix_def search_def hindi_pattern_def english_pattern_def
        mixed_example_def ascii_def)
  have b: "detect_language_mix [2352, 2366, 2350] = (True, False)"
    by (simp add: detect_language_mix_def search_def hindi_pattern_def english_pattern_def)
  have c: "fst (detect_language_mix (ascii ''Ram'')) = False"
    by (simp add: detect_language_mix_def search_def hindi_pattern_def english_pattern_def ascii_def)
  from a b c route_by_script [of mixed_example echo_service initial_world]
    route_by_script [of "[2352, 2366, 2350]" echo_service initial_world]
    route_by_script [of "ascii ''Ram''" echo_service initial_world]
  show ?thesis by (simp add: echo_service_def initial_world_def)
qed

subsection \<open>The pipeline\<close>

lemma table_exchanges_first:
  "table_exchanges svc history s \<noteq> [] \<and> payload (fst (hd (table_exchanges svc history s))) = s"
proof -
  obtain hh he where d: "detect_language_mix s = (hh, he)" by (cases "detect_language_mix s")
  show ?thesis by (cases hh; cases he) (simp_all add: table_exchanges_def d Let_def)
qed

lemma table_run_first:
  "map (\<lambda>xs. payload (fst (hd xs))) (table_run svc history ss) = ss"
  by (induction ss arbitrary: history) (simp_all add: table_exchanges_first)

lemma route_answers:
  assumes "answers svc"
  shows "route svc s w =
    (Inr (answer_text (snd (last (table_exchanges svc (calls w) s)))),
     w\<lparr>calls := calls w @ table_exchanges svc (calls w) s\<rparr>)"
proof -
  obtain hh he where d: "detect_language_mix s = (hh, he)" by (cases "detect_language_mix s")
  have a: "\<exists>x. svc h q = Inr x" for h q using assms unfolding answers_def by blast
  show ?thesis
  proof (cases "hh \<and> he")
    case True
    let ?q1 = "\<lparr>source = Auto, target = Hi, payload = s\<rparr>"
    obtain h where h: "svc (calls w) ?q1 = Inr h" using a by blast
    let ?q2 = "\<lparr>source = Hi, target = En, payload = h\<rparr>"
    obtain e where e: "svc (calls w @ [(?q1, Inr h)]) ?q2 = Inr e" using a by blast
    from True h e show ?thesis
      by (simp add: route_def d table_exchanges_def translator_translate_def
          hindi_translator_def english_translator_def Let_def)
  next
    case False
    let ?q = "if hh then \<lparr>source = Hi, target = En, payload = s\<rparr>
        else \<lparr>source = Auto, target = En, payload = s\<rparr>"
    obtain e where e: "svc (calls w) ?q = Inr e" using a by blast
    from False e show ?thesis
      by (cases hh; cases he)
        (simp_all add: route_def d table_exchanges_def translator_translate_def
          auto_translator_def english_translator_def Let_def)
  qed
qed

lemma translate_loop_answers:
  assumes "answers svc"
  shows "translate_loop svc ss parts w =
     (Inr (parts @ map (\<lambda>xs. answer_text (snd (last xs)))
            (table_run svc (calls w) (filter (\<lambda>s. strip s \<noteq> []) ss))),
      w\<lparr>calls := calls w @ concat (table_run svc (calls w) (filter (\<lambda>s. strip s \<noteq> []) ss))\<rparr>)"
proof (induction ss arbitrary: parts w)
  case Nil
  then show ?case by simp
next
  case (Cons s ss)
  show ?case
  proof (cases "strip s = []")
    case True
    then show ?thesis using Cons.IH by simp
  next
    case False
    then show ?thesis by (simp add: route_answers [OF assms] Cons.IH)
  qed
qed

text \<open>
  Claim C1, as amended. On a text that is not blank, with a service that answers every
  request (its answers may depend on the requests before), \<open>translate\<close> segments the
  text, routes every sentence that is not blank by the decision table, the sentence
  itself being the payload of its first request (no term is masked before and none is
  restored after), and joins the answers with a single space; the requests of the run
  are those of the sentences, in order.
\<close>

theorem translate_pipeline:
  assumes "answers svc" and "strip t \<noteq> []"
  shows "translate svc t w =
     (Inr (join (ascii '' '')
        (map (\<lambda>xs. answer_text (snd (last xs)))
           (table_run svc (calls w) (filter (\<lambda>s. strip s \<noteq> []) (split_sentences t))))),
      w\<lparr>calls := calls w @
           concat (table_run svc (calls w) (filter (\<lambda>s. strip s \<noteq> []) (split_sentences t)))\<rparr>) \<and>
   map (\<lambda>xs. payload (fst (hd xs)))
     (table_run svc (calls w) (filter (\<lambda>s. strip s \<noteq> []) (split_sentences t))) =
     filter (\<lambda>s. strip s \<noteq> []) (split_sentences t)"
  using assms(2)
  by (simp add: translate_def translate_try_def translate_loop_answers [OF assms(1)]
      table_run_first)

lemma answers_counting: "answers counting_service"
  by (simp add: answers_def counting_service_def)

lemma split_three_sentences:
  "filter (\<lambda>s. strip s \<noteq> []) (split_sentences (ascii ''Hi. Go! ok'')) =
     [ascii ''Hi.'', ascii '' Go!'', ascii '' ok'']"
  by (simp add: split_sentences_def terminators_def strip_def isspace_def ascii_def)

lemma table_run_counting:
  "table_run counting_service [] [ascii ''Hi.'', ascii '' Go!'', ascii '' ok''] =
     [[(\<lparr>source = Auto, target = En, payload = ascii ''Hi.''\<rparr>, Inr (ascii ''Hi.''))],
      [(\<lparr>source = Auto, target = En, payload = ascii '' Go!''\<rparr>, Inr (ascii '' Go!!''))],
      [(\<lparr>source = Auto, target = En, payload = ascii '' ok''\<rparr>, Inr (ascii '' ok!!''))]]"
  by (simp add: table_exchanges_def detect_language_mix_def search_def hindi_pattern_def
      english_pattern_def counting_service_def ascii_def)

theorem translate_pipeline_witness:
  "answers counting_service \<and> strip (ascii ''Hi. Go! ok'') \<noteq> [] \<and>
   translate counting_service (ascii ''Hi. Go! ok'') initial_world =
     (Inr (ascii ''Hi.  Go!!  ok!!''),
      \<lparr>calls =
         [(\<lparr>source = Auto, target = En, payload = ascii ''Hi.''\<rparr>, Inr (ascii ''Hi.'')),
          (\<lparr>source = Auto, target = En, payload = ascii '' Go!''\<rparr>, Inr (ascii '' Go!!'')),
          (\<lparr>source = Auto, target = En, payload = ascii '' ok''\<rparr>, Inr (ascii '' ok!!''))],
       shown_errors = []\<rparr>)"
proof -
  have b: "strip (ascii ''Hi. Go! ok'') \<noteq> []"
    by (simp add: strip_def isspace_def ascii_def)
  have j: "join (ascii '' '') [ascii ''Hi.'', ascii '' Go!!'', ascii '' ok!!''] =
      ascii ''Hi.  Go!!  ok!!''"
    by (simp add: ascii_def)
  have c0: "calls initial_world = []" by (simp add: initial_world_def)
  note th = translate_pipeline [OF answers_counting b, of initial_world, THEN conjunct1]
  have "translate counting_service (ascii ''Hi. Go! ok'') initial_world =
     (Inr (join (ascii '' '') [ascii ''Hi.'', ascii '' Go!!'', ascii '' ok!!'']),
      \<lparr>calls =
         [(\<lparr>source = Auto, target = En, payload = ascii ''Hi.''\<rparr>, Inr (ascii ''Hi.'')),
          (\<lparr>source = Auto, target = En, payload = ascii '' Go!''\<rparr>, Inr (ascii '' Go!!'')),
          (\<lparr>source = Auto, target = En, payload = ascii '' ok''\<rparr>, Inr (ascii '' ok!!''))],
       shown_errors = []\<rparr>)"
    using th [unfolded split_three_sentences c0 table_run_counting]
    by (simp add: initial_world_def)
  with answers_counting b j show ?thesis by simp
qed

lemma preserve_greeting:
  "preserve_special_terms ascii_db (ascii ''Namaste John'') =
     (ascii ''PRESERVED_0 PRESERVED_1'', [ascii ''Namaste'', ascii ''John''])"
  by code_simp

lemma restore_greeting:
  "restore_preserved_terms (ascii ''PRESERVED_0 PRESERVED_1'') [ascii ''Namaste'', ascii ''John''] =
     ascii ''Namaste John''"
  by code_simp

lemma claimed_greeting:
  "translate_claimed ascii_db greeting_service (ascii ''Namaste John'') = ascii ''Namaste John''"
proof -
  have s: "split_sentences (ascii ''Namaste John'') = [ascii ''Namaste John'']"
    by (simp add: split_sentences_def terminators_def ascii_def)
  have b: "strip (ascii ''Namaste John'') \<noteq> []"
    by (simp add: strip_def isspace_def ascii_def)
  have d: "detect_language_mix (ascii ''PRESERVED_0 PRESERVED_1'') = (False, True)"
    by (simp add: detect_language_mix_def search_def hindi_pattern_def english_pattern_def ascii_def)
  have g: "greeting_service \<lparr>source = Auto, target = En, payload = ascii ''PRESERVED_0 PRESERVED_1''\<rparr> =
      ascii ''PRESERVED_0 PRESERVED_1''"
    by (simp add: greeting_service_def ascii_def)
  show ?thesis
    by (simp add: translate_claimed_def s b preserve_greeting route_table_def d g restore_greeting)
qed

lemma run_greeting:
  "translate (stateless greeting_service) (ascii ''Namaste John'') initial_world =
     (Inr (ascii ''Hello John''),
      \<lparr>calls = [(\<lparr>source = Auto, target = En, payload = ascii ''Namaste John''\<rparr>,
                 Inr (ascii ''Hello John''))],
       shown_errors = []\<rparr>)"
  by (simp add: run_defs stateless_def greeting_service_def)

theorem translate_pipeline_counterexample:
  "fst (translate (stateless greeting_service) (ascii ''Namaste John'') initial_world) =
     Inr (ascii ''Hello John'') \<and>
   map (\<lambda>x. payload (fst x))
     (calls (snd (translate (stateless greeting_service) (ascii ''Namaste John'') initial_world))) =
     [ascii ''Namaste John''] \<and>
   fst (preserve_special_terms ascii_db (ascii ''Namaste John'')) = ascii ''PRESERVED_0 PRESERVED_1'' \<and>
   translate_claimed ascii_db greeting_service (ascii ''Namaste John'') = ascii ''Namaste John'' \<and>
   fst (translate (stateless greeting_service) (ascii ''Namaste John'') initial_world) \<noteq>
     Inr (translate_claimed ascii_db greeting_service (ascii ''Namaste John''))"
proof -
  have "ascii ''Hello John'' \<noteq> ascii ''Namaste John''" by (simp add: ascii_def)
  then show ?thesis
    by (simp add: run_greeting preserve_greeting claimed_greeting)
qed

section \<open>Properties of the orchestrator on values of any type\<close>

subsection \<open>On strings it is the orchestrator above\<close>

lemma request_of_dyn: "request_of (dyn_request_of q) = q"
  by (simp add: request_of_def dyn_request_of_def)

lemma response_of_dyn: "response_of (dyn_response_of a) = a"
  by (cases a) simp_all

lemma calls_of_dyn:
  "map (\<lambda>x. (request_of (fst x), response_of (snd x))) (dyn_calls (dyn_world_of w)) = calls w"
  by (simp add: dyn_world_of_def o_def request_of_dyn response_of_dyn)

lemma dyn_translator_translate_refines:
  "dyn_translator_translate (dyn_service_of svc) tr (PStr t) (dyn_world_of w) =
   (dyn_response_of (fst (translator_translate svc tr t w)),
    dyn_world_of (snd (translator_translate svc tr t w)))"
proof -
  let ?q = "\<lparr>source = fst tr, target = snd tr, payload = t\<rparr>"
  have q: "\<lparr>dyn_source = fst tr, dyn_target = snd tr, dyn_payload = PStr t\<rparr> = dyn_request_of ?q"
    by (simp add: dyn_request_of_def)
  have a: "dyn_service_of svc (dyn_calls (dyn_world_of w)) (dyn_request_of ?q) =
      dyn_response_of (svc (calls w) ?q)"
    by (simp add: dyn_service_of_def calls_of_dyn request_of_dyn)
  have w: "(dyn_world_of w)\<lparr>dyn_calls :=
        dyn_calls (dyn_world_of w) @ [(dyn_request_of ?q, dyn_response_of a)]\<rparr> =
      dyn_world_of (w\<lparr>calls := calls w @ [(?q, a)]\<rparr>)" for a
    by (simp add: dyn_world_of_def)
  show ?thesis
    unfolding dyn_translator_translate_def translator_translate_def Let_def q a w by simp
qed

lemma dyn_route_refines:
  "dyn_route (dyn_service_of svc) s (dyn_world_of w) =
   (dyn_response_of (fst (route svc s w)), dyn_world_of (snd (route svc s w)))"
proof -
  obtain hh he where d: "detect_language_mix s = (hh, he)" by (cases "detect_language_mix s")
  obtain r1 w1 where c1: "translator_translate svc hindi_translator s w = (r1, w1)"
    by (cases "translator_translate svc hindi_translator s w")
  show ?thesis
    using d c1
    by (cases r1) (simp_all add: dyn_route_def route_def dyn_translator_translate_refines)
qed

lemma py_join_items_strs: "py_join_items (map PStr xs) i = Inr xs"
  by (induction xs arbitrary: i) simp_all

lemma dyn_translate_loop_refines:
  "dyn_translate_loop (dyn_service_of svc) ss (map PStr parts) (dyn_world_of w) =
   (case fst (translate_loop svc ss parts w) of Inl e \<Rightarrow> Inl e | Inr ps \<Rightarrow> Inr (map PStr ps),
    dyn_world_of (snd (translate_loop svc ss parts w)))"
proof (induction ss arbitrary: parts w)
  case Nil
  show ?case by simp
next
  case (Cons s ss)
  obtain r1 w1 where rt: "route svc s w = (r1, w1)" by (cases "route svc s w")
  show ?case
  proof (cases r1)
    case (Inl e)
    with rt show ?thesis using Cons.IH [of parts w] by (simp add: dyn_route_refines)
  next
    case (Inr res)
    with rt show ?thesis
      using Cons.IH [of parts w] Cons.IH [of "parts @ [res]" w1]
      by (simp add: dyn_route_refines)
  qed
qed

lemma dyn_translate_try_refines:
  "dyn_translate_try (dyn_service_of svc) (PStr t) (dyn_world_of w) =
   (fst (translate_try svc t w), dyn_world_of (snd (translate_try svc t w)))"
proof -
  obtain r1 w1 where l: "translate_loop svc (split_sentences t) [] w = (r1, w1)"
    by (cases "translate_loop svc (split_sentences t) [] w")
  show ?thesis
    using l dyn_translate_loop_refines [of svc "split_sentences t" "[]" w]
    by (cases r1)
      (simp_all add: dyn_translate_try_def translate_try_def py_join_def py_join_items_strs)
qed

lemma dyn_translate_refines:
  "dyn_translate quiet_ui (dyn_service_of svc) (PStr t) (dyn_world_of w) =
   (fst (translate svc t w), dyn_world_of (snd (translate svc t w)))"
proof -
  obtain r1 w1 where l: "translate_try svc t w = (r1, w1)" by (cases "translate_try svc t w")
  have s: "(dyn_world_of w1)\<lparr>dyn_shown_errors := dyn_shown_errors (dyn_world_of w1) @ [m]\<rparr> =
      dyn_world_of (w1\<lparr>shown_errors := shown_errors w1 @ [m]\<rparr>)" for m
    by (simp add: dyn_world_of_def)
  show ?thesis
    unfolding dyn_translate_def translate_def dyn_translate_try_refines l
    by (cases r1) (simp_all add: quiet_ui_def error_report_def s)
qed

subsection \<open>The log of a run on values of any type\<close>

lemma dyn_translator_translate_log:
  "dyn_translator_translate svc tr v w = (r, w') \<Longrightarrow>
   dyn_shown_errors w' = dyn_shown_errors w \<and>
   dyn_calls w' = dyn_calls w @ [(\<lparr>dyn_source = fst tr, dyn_target = snd tr, dyn_payload = v\<rparr>, r)]"
  by (auto simp: dyn_translator_translate_def Let_def)

lemma dyn_no_failure_append:
  "dyn_no_failure (xs @ ys) \<longleftrightarrow> dyn_no_failure xs \<and> dyn_no_failure ys"
  by (simp add: dyn_no_failure_def)

lemma dyn_no_failure_snoc_iff:
  assumes "ys \<noteq> []"
  shows "dyn_no_failure ys \<longleftrightarrow> dyn_no_failure (butlast ys) \<and> \<not> isl (snd (last ys))"
proof -
  from assms have "ys = butlast ys @ [last ys]" by simp
  then have "dyn_no_failure ys = dyn_no_failure (butlast ys @ [last ys])" by simp
  then show ?thesis by (simp add: dyn_no_failure_def)
qed

lemma dyn_no_failure_butlast: "dyn_no_failure xs \<Longrightarrow> dyn_no_failure (butlast xs)"
  by (auto simp: dyn_no_failure_def list_all_iff dest: in_set_butlastD)

lemma dyn_route_log:
  assumes "dyn_route svc s w = (r, w')"
  shows "dyn_shown_errors w' = dyn_shown_errors w \<and>
    (\<exists>new. dyn_calls w' = dyn_calls w @ new \<and> new \<noteq> [] \<and> snd (last new) = r \<and>
       dyn_no_failure (butlast new))"
proof -
  obtain hh he where d: "detect_language_mix s = (hh, he)" by (cases "detect_language_mix s")
  show ?thesis
  proof (cases "hh \<and> he")
    case True
    obtain r1 w1 where c1: "dyn_translator_translate svc hindi_translator (PStr s) w = (r1, w1)"
      by (cases "dyn_translator_translate svc hindi_translator (PStr s) w")
    note l1 = dyn_translator_translate_log [OF c1]
    show ?thesis
    proof (cases r1)
      case (Inl e)
      with assms d True c1 have "r = Inl e" "w' = w1" by (simp_all add: dyn_route_def)
      with l1 Inl show ?thesis by (simp add: dyn_no_failure_def)
    next
      case (Inr h)
      with assms d True c1 have c2: "dyn_translator_translate svc english_translator h w1 = (r, w')"
        by (simp add: dyn_route_def)
      note l2 = dyn_translator_translate_log [OF c2]
      from l1 l2 Inr show ?thesis by (simp add: dyn_no_failure_def)
    qed
  next
    case False
    then have "dyn_translator_translate svc english_translator (PStr s) w = (r, w') \<or>
      dyn_translator_translate svc auto_translator (PStr s) w = (r, w')"
      using assms d by (auto simp: dyn_route_def split: if_splits)
    then show ?thesis
      by (auto dest!: dyn_translator_translate_log simp: dyn_no_failure_def)
  qed
qed

lemma dyn_translate_loop_log:
  "dyn_translate_loop svc ss parts w = (r, w') \<Longrightarrow>
   dyn_shown_errors w' = dyn_shown_errors w \<and>
   (\<exists>new. dyn_calls w' = dyn_calls w @ new \<and> dyn_no_failure (butlast new) \<and>
      (case r of Inl e \<Rightarrow> new \<noteq> [] \<and> snd (last new) = Inl e | Inr ps \<Rightarrow> dyn_no_failure new))"
proof (induction ss arbitrary: parts w)
  case Nil
  then show ?case by (auto simp: dyn_no_failure_def)
next
  case (Cons s ss)
  show ?case
  proof (cases "strip s = []")
    case True
    with Cons.prems have "dyn_translate_loop svc ss parts w = (r, w')" by simp
    from Cons.IH [OF this] show ?thesis .
  next
    case False
    obtain r1 w1 where rt: "dyn_route svc s w = (r1, w1)" by (cases "dyn_route svc s w")
    from dyn_route_log [OF rt] obtain new1 where
      n1: "dyn_shown_errors w1 = dyn_shown_errors w" "dyn_calls w1 = dyn_calls w @ new1" "new1 \<noteq> []"
        "snd (last new1) = r1" "dyn_no_failure (butlast new1)" by blast
    show ?thesis
    proof (cases r1)
      case (Inl e)
      with Cons.prems False rt have "r = Inl e" "w' = w1" by simp_all
      with n1 Inl show ?thesis by auto
    next
      case (Inr res)
      with Cons.prems False rt have "dyn_translate_loop svc ss (parts @ [res]) w1 = (r, w')"
        by simp
      from Cons.IH [OF this] obtain new2 where
        n2: "dyn_shown_errors w' = dyn_shown_errors w1" "dyn_calls w' = dyn_calls w1 @ new2"
          "dyn_no_failure (butlast new2)"
          "case r of Inl e \<Rightarrow> new2 \<noteq> [] \<and> snd (last new2) = Inl e | Inr ps \<Rightarrow> dyn_no_failure new2"
        by blast
      from n1 Inr have ok1: "dyn_no_failure new1" by (simp add: dyn_no_failure_snoc_iff)
      have "dyn_calls w' = dyn_calls w @ (new1 @ new2)" using n1 n2 by simp
      moreover have "dyn_no_failure (butlast (new1 @ new2))"
        using ok1 n2(3) by (simp add: butlast_append dyn_no_failure_append dyn_no_failure_butlast)
      moreover have "case r of Inl e \<Rightarrow> new1 @ new2 \<noteq> [] \<and> snd (last (new1 @ new2)) = Inl e
          | Inr ps \<Rightarrow> dyn_no_failure (new1 @ new2)"
        using n2(4) ok1 by (auto simp: dyn_no_failure_append split: sum.splits)
      ultimately show ?thesis using n1(1) n2(1) by metis
    qed
  qed
qed

lemma py_join_items_raises:
  "\<exists>v\<in>set parts. \<not> is_str v \<Longrightarrow>
   \<exists>k < length parts. \<not> is_str (parts ! k) \<and> (\<forall>j < k. is_str (parts ! j)) \<and>
     py_join_items parts i = Inl (TypeError (no_str_message (i + k) (parts ! k)))"
proof (induction parts arbitrary: i)
  case Nil
  then show ?case by simp
next
  case (Cons p parts)
  show ?case
  proof (cases "is_str p")
    case False
    then have "\<not> is_str ((p # parts) ! 0) \<and> (\<forall>j < 0. is_str ((p # parts) ! j)) \<and>
      py_join_items (p # parts) i = Inl (TypeError (no_str_message (i + 0) ((p # parts) ! 0)))"
      by (cases p) simp_all
    then show ?thesis by blast
  next
    case True
    then obtain x where p: "p = PStr x" by (cases p) simp_all
    with Cons.prems have "\<exists>v\<in>set parts. \<not> is_str v" by simp
    from Cons.IH [OF this, of "Suc i"] obtain k where
      k: "k < length parts" "\<not> is_str (parts ! k)" "\<forall>j < k. is_str (parts ! j)"
        "py_join_items parts (Suc i) = Inl (TypeError (no_str_message (Suc i + k) (parts ! k)))"
      by blast
    have "\<forall>j < Suc k. is_str ((p # parts) ! j)"
      using k(3) p by (auto simp: nth_Cons split: nat.splits)
    with k p have "Suc k < length (p # parts) \<and> \<not> is_str ((p # parts) ! Suc k) \<and>
      (\<forall>j < Suc k. is_str ((p # parts) ! j)) \<and>
      py_join_items (p # parts) i =
        Inl (TypeError (no_str_message (i + Suc k) ((p # parts) ! Suc k)))" by simp
    then show ?thesis by blast
  qed
qed

lemma py_join_items_returns:
  "\<forall>v\<in>set parts. is_str v \<Longrightarrow> py_join_items parts i = Inr (map text_of parts)"
proof (induction parts arbitrary: i)
  case Nil
  show ?case by simp
next
  case (Cons p parts)
  then show ?case by (cases p) simp_all
qed

lemma bytes_strip_Nil: "bytes_strip [] = []"
  by (simp add: bytes_strip_def)

text \<open>
  What the body of the \<open>try\<close> does, read off its input, the requests it logged and the
  parts it collected: it raises at \<open>text.strip()\<close>, at the segmentation, at a request or
  at the join, and returns otherwise.
\<close>

lemma dyn_translate_try_outcome:
  assumes "dyn_translate_try svc x w = (r, w')"
  shows "dyn_shown_errors w' = dyn_shown_errors w \<and>
    (\<exists>new. dyn_calls w' = dyn_calls w @ new \<and> dyn_no_failure (butlast new) \<and>
      ((x = PNone \<and> new = [] \<and> r = Inl (AttributeError no_strip_message)) \<or>
       (\<exists>b. x = PBytes b \<and> bytes_strip b = [] \<and> new = [] \<and> r = Inr []) \<or>
       (\<exists>b. x = PBytes b \<and> bytes_strip b \<noteq> [] \<and> new = [] \<and>
          r = Inl (TypeError in_string_message)) \<or>
       (\<exists>t. x = PStr t \<and> strip t = [] \<and> new = [] \<and> r = Inr []) \<or>
       (\<exists>t e. x = PStr t \<and> strip t \<noteq> [] \<and> new \<noteq> [] \<and> snd (last new) = Inl e \<and> r = Inl e \<and>
          dyn_translate_loop svc (split_sentences t) [] w = (Inl e, w')) \<or>
       (\<exists>t parts. x = PStr t \<and> strip t \<noteq> [] \<and> dyn_no_failure new \<and>
          dyn_translate_loop svc (split_sentences t) [] w = (Inr parts, w') \<and>
          (if \<exists>v\<in>set parts. \<not> is_str v
           then \<exists>k < length parts. \<not> is_str (parts ! k) \<and> (\<forall>j < k. is_str (parts ! j)) \<and>
                  r = Inl (TypeError (no_str_message k (parts ! k)))
           else r = Inr (join (ascii '' '') (map text_of parts))))))"
proof (cases x)
  case PNone
  with assms have "r = Inl (AttributeError no_strip_message)" "w' = w"
    by (simp_all add: dyn_translate_try_def)
  with PNone show ?thesis by (simp add: dyn_no_failure_def)
next
  case (PBytes b)
  show ?thesis
  proof (cases "bytes_strip b = []")
    case True
    with assms PBytes have "r = Inr []" "w' = w" by (simp_all add: dyn_translate_try_def)
    with PBytes True show ?thesis by (simp add: dyn_no_failure_def)
  next
    case False
    then obtain c cs where "b = c # cs" by (cases b) (simp_all add: bytes_strip_Nil)
    with assms PBytes False have "r = Inl (TypeError in_string_message)" "w' = w"
      by (simp_all add: dyn_translate_try_def)
    with PBytes False show ?thesis by (simp add: dyn_no_failure_def)
  qed
next
  case (PStr t)
  show ?thesis
  proof (cases "strip t = []")
    case True
    with assms PStr have "r = Inr []" "w' = w" by (simp_all add: dyn_translate_try_def)
    with PStr True show ?thesis by (simp add: dyn_no_failure_def)
  next
    case False
    obtain r1 w1 where l: "dyn_translate_loop svc (split_sentences t) [] w = (r1, w1)"
      by (cases "dyn_translate_loop svc (split_sentences t) [] w")
    from dyn_translate_loop_log [OF l] obtain new where
      n: "dyn_shown_errors w1 = dyn_shown_errors w" "dyn_calls w1 = dyn_calls w @ new"
        "dyn_no_failure (butlast new)"
        "case r1 of Inl e \<Rightarrow> new \<noteq> [] \<and> snd (last new) = Inl e | Inr ps \<Rightarrow> dyn_no_failure new"
      by blast
    show ?thesis
    proof (cases r1)
      case (Inl e)
      with assms PStr False l have "r = Inl e" "w' = w1" by (simp_all add: dyn_translate_try_def)
      with n Inl PStr False l show ?thesis by auto
    next
      case (Inr parts)
      with assms PStr False l have w: "w' = w1"
        by (auto simp: dyn_translate_try_def split: sum.splits)
      have "if \<exists>v\<in>set parts. \<not> is_str v
           then \<exists>k < length parts. \<not> is_str (parts ! k) \<and> (\<forall>j < k. is_str (parts ! j)) \<and>
                  r = Inl (TypeError (no_str_message k (parts ! k)))
           else r = Inr (join (ascii '' '') (map text_of parts))"
      proof (cases "\<exists>v\<in>set parts. \<not> is_str v")
        case True
        from py_join_items_raises [OF True, of 0] obtain k where
          k: "k < length parts" "\<not> is_str (parts ! k)" "\<forall>j < k. is_str (parts ! j)"
            "py_join_items parts 0 = Inl (TypeError (no_str_message k (parts ! k)))" by auto
        with assms PStr False l Inr have "r = Inl (TypeError (no_str_message k (parts ! k)))"
          by (simp add: dyn_translate_try_def py_join_def)
        with k True show ?thesis by auto
      next
        case F: False
        then have "\<forall>v\<in>set parts. is_str v" by blast
        from py_join_items_returns [OF this, of 0] assms PStr False l Inr
        have "r = Inr (join (ascii '' '') (map text_of parts))"
          by (simp add: dyn_translate_try_def py_join_def)
        with F show ?thesis by simp
      qed
      with n Inr PStr False l w show ?thesis by auto
    qed
  qed
qed

lemma dyn_failure_is_last:
  assumes "dyn_no_failure (butlast new)" "(req, Inl e) \<in> set new"
  shows "new \<noteq> [] \<and> last new = (req, Inl e)"
proof -
  from assms(2) have ne: "new \<noteq> []" by auto
  then have "new = butlast new @ [last new]" by simp
  with assms(2) have "(req, Inl e) \<in> set (butlast new) \<or> (req, Inl e) = last new"
    by (metis Un_iff empty_iff empty_set insert_iff list.simps(15) set_append)
  moreover have "(req, Inl e) \<notin> set (butlast new)"
    using assms(1) by (auto simp: dyn_no_failure_def list_all_iff)
  ultimately show ?thesis using ne by simp
qed

subsection \<open>Concrete runs on values of any type\<close>

lemmas dyn_run_defs = dyn_translate_def dyn_translate_try_def dyn_translate_loop.simps
  dyn_route_def dyn_translator_translate_def py_join_def dyn_initial_world_def quiet_ui_def
  split_sentences_def terminators_def strip_def isspace_def ascii_def detect_language_mix_def
  search_def hindi_pattern_def english_pattern_def auto_translator_def hindi_translator_def
  english_translator_def Let_def

lemma run_none_input:
  "dyn_translate quiet_ui none_service PNone dyn_initial_world =
   (Inr failure_message,
    \<lparr>dyn_calls = [],
     dyn_shown_errors = [error_report (AttributeError no_strip_message)]\<rparr>)"
  by (simp add: dyn_translate_def dyn_translate_try_def quiet_ui_def dyn_initial_world_def)

lemma run_none_answer:
  "dyn_translate quiet_ui none_service (PStr (ascii ''Hi. Go'')) dyn_initial_world =
   (Inr failure_message,
    \<lparr>dyn_calls =
       [(\<lparr>dyn_source = Auto, dyn_target = En, dyn_payload = PStr (ascii ''Hi.'')\<rparr>, Inr PNone),
        (\<lparr>dyn_source = Auto, dyn_target = En, dyn_payload = PStr (ascii '' Go'')\<rparr>, Inr PNone)],
     dyn_shown_errors = [error_report (TypeError (no_str_message 0 PNone))]\<rparr>)"
  by (simp add: dyn_run_defs none_service_def)

lemma loop_none_answer:
  "dyn_translate_loop none_service (split_sentences (ascii ''Hi. Go'')) [] dyn_initial_world =
   (Inr [PNone, PNone],
    \<lparr>dyn_calls =
       [(\<lparr>dyn_source = Auto, dyn_target = En, dyn_payload = PStr (ascii ''Hi.'')\<rparr>, Inr PNone),
        (\<lparr>dyn_source = Auto, dyn_target = En, dyn_payload = PStr (ascii '' Go'')\<rparr>, Inr PNone)],
     dyn_shown_errors = []\<rparr>)"
  by (simp add: dyn_run_defs none_service_def)

lemma run_dyn_failing:
  "dyn_translate quiet_ui dyn_failing_service (PStr (ascii ''Hi. Go'')) dyn_initial_world =
   (Inr failure_message,
    \<lparr>dyn_calls =
       [(\<lparr>dyn_source = Auto, dyn_target = En, dyn_payload = PStr (ascii ''Hi.'')\<rparr>,
         Inl (ServiceError (ascii ''quota'')))],
     dyn_shown_errors = [error_report (ServiceError (ascii ''quota''))]\<rparr>)"
  by (simp add: dyn_run_defs dyn_failing_service_def)

lemma run_dyn_interrupted:
  "dyn_translate quiet_ui dyn_interrupted_service (PStr (ascii ''Hi. Go'')) dyn_initial_world =
   (Inl KeyboardInterrupt,
    \<lparr>dyn_calls =
       [(\<lparr>dyn_source = Auto, dyn_target = En, dyn_payload = PStr (ascii ''Hi.'')\<rparr>,
         Inl KeyboardInterrupt)],
     dyn_shown_errors = []\<rparr>)"
  by (simp add: dyn_run_defs dyn_interrupted_service_def)

lemma run_bytes_input:
  "dyn_translate quiet_ui none_service (PBytes (ascii ''Hi'')) dyn_initial_world =
   (Inr failure_message,
    \<lparr>dyn_calls = [], dyn_shown_errors = [error_report (TypeError in_string_message)]\<rparr>)"
  by (simp add: dyn_translate_def dyn_translate_try_def quiet_ui_def dyn_initial_world_def
      bytes_strip_def bytes_isspace_def ascii_def)

lemma strip_bytes_input: "bytes_strip (ascii ''Hi'') \<noteq> []"
  by (simp add: bytes_strip_def bytes_isspace_def ascii_def)

lemma run_broken_ui:
  "dyn_translate broken_ui none_service PNone dyn_initial_world =
   (Inl (ServiceError (ascii ''no session'')), dyn_initial_world)"
  by (simp add: dyn_translate_def dyn_translate_try_def broken_ui_def)

lemma report_no_str:
  "error_report (TypeError (no_str_message 0 PNone)) =
   ascii ''Translation error: sequence item 0: expected str instance, NoneType found''"
  by (simp add: error_report_def no_str_message_def ascii_def str_nat.simps [of 0])

subsection \<open>The handler\<close>

text \<open>An exception that \<open>st.error\<close> raises inside the handler reaches the caller, whatever
  its class.\<close>

lemma dyn_translate_handler_raises:
  assumes "dyn_translate_try svc x w = (Inl e, w1)" and "isinstance_Exception e"
    and "st_error (error_report e) = Some e'"
  shows "dyn_translate st_error svc x w = (Inl e', w1)"
  using assms by (simp add: dyn_translate_def)

text \<open>
  Claim C10, as amended. Let \<open>st.error\<close> return whenever it is called. Then \<open>translate\<close>
  raises to its caller no exception that is an instance of \<open>Exception\<close>, whichever
  step of the \<open>try\<close> body raised it, and returns the fixed failure message instead,
  after showing the error:
  \<^item> \<open>text.strip()\<close> raises \<open>AttributeError\<close> when the input is \<open>None\<close>, before any request;
  \<^item> \<open>self.split_sentences(text)\<close> raises \<open>TypeError\<close> when the input is a \<open>bytes\<close> object
    that is not blank, before any request;
  \<^item> a request to the translation service raises; it is then the last request of the run;
  \<^item> \<open>' '.join(translated_parts)\<close> raises \<open>TypeError\<close> when the service answered a sentence
    with a value that is not a string, after all requests.

  The handler is \<open>except Exception\<close>: an exception that derives from \<open>BaseException\<close> only
  (\<open>KeyboardInterrupt\<close>, \<open>SystemExit\<close>) is not caught, reaches the caller, and nothing is
  shown. Whatever reaches the caller is such an exception, raised by the last request.
\<close>

theorem dyn_translate_catches_exceptions:
  assumes "dyn_translate st_error svc x w = (r, w')" and "dyn_calls w' = dyn_calls w @ new"
    and "\<forall>message. st_error message = None"
  shows "(\<forall>e. r = Inl e \<longrightarrow> \<not> isinstance_Exception e \<and> new \<noteq> [] \<and> snd (last new) = Inl e) \<and>
    (x = PNone \<longrightarrow>
       r = Inr failure_message \<and> new = [] \<and>
       dyn_shown_errors w' =
         dyn_shown_errors w @ [error_report (AttributeError no_strip_message)]) \<and>
    (\<forall>b. x = PBytes b \<and> bytes_strip b \<noteq> [] \<longrightarrow>
       r = Inr failure_message \<and> new = [] \<and>
       dyn_shown_errors w' = dyn_shown_errors w @ [error_report (TypeError in_string_message)]) \<and>
    (\<forall>req e. (req, Inl e) \<in> set new \<and> isinstance_Exception e \<longrightarrow>
       r = Inr failure_message \<and> last new = (req, Inl e) \<and>
       dyn_shown_errors w' = dyn_shown_errors w @ [error_report e]) \<and>
    (\<forall>req e. (req, Inl e) \<in> set new \<and> \<not> isinstance_Exception e \<longrightarrow>
       r = Inl e \<and> last new = (req, Inl e) \<and> dyn_shown_errors w' = dyn_shown_errors w) \<and>
    (\<forall>t parts w1. x = PStr t \<and> strip t \<noteq> [] \<and>
        dyn_translate_loop svc (split_sentences t) [] w = (Inr parts, w1) \<and>
        (\<exists>v\<in>set parts. \<not> is_str v) \<longrightarrow>
       r = Inr failure_message \<and> dyn_calls w' = dyn_calls w1 \<and>
       (\<exists>k < length parts. \<not> is_str (parts ! k) \<and> (\<forall>j < k. is_str (parts ! j)) \<and>
          dyn_shown_errors w' =
            dyn_shown_errors w @ [error_report (TypeError (no_str_message k (parts ! k)))]))"
proof -
  obtain r1 w1 where l: "dyn_translate_try svc x w = (r1, w1)"
    by (cases "dyn_translate_try svc x w")
  from assms(1,3) l have h:
    "case r1 of
       Inl e \<Rightarrow>
         if isinstance_Exception e
         then r = Inr failure_message \<and>
              w' = w1\<lparr>dyn_shown_errors := dyn_shown_errors w1 @ [error_report e]\<rparr>
         else r = Inl e \<and> w' = w1
     | Inr res \<Rightarrow> r = Inr res \<and> w' = w1"
    by (auto simp: dyn_translate_def split: sum.splits)
  then have cw: "dyn_calls w' = dyn_calls w1" by (auto split: sum.splits if_splits)
  from dyn_translate_try_outcome [OF l] obtain new1 where
    n: "dyn_shown_errors w1 = dyn_shown_errors w" "dyn_calls w1 = dyn_calls w @ new1"
      "dyn_no_failure (butlast new1)" and
    alt: "(x = PNone \<and> new1 = [] \<and> r1 = Inl (AttributeError no_strip_message)) \<or>
       (\<exists>b. x = PBytes b \<and> bytes_strip b = [] \<and> new1 = [] \<and> r1 = Inr []) \<or>
       (\<exists>b. x = PBytes b \<and> bytes_strip b \<noteq> [] \<and> new1 = [] \<and>
          r1 = Inl (TypeError in_string_message)) \<or>
       (\<exists>t. x = PStr t \<and> strip t = [] \<and> new1 = [] \<and> r1 = Inr []) \<or>
       (\<exists>t e. x = PStr t \<and> strip t \<noteq> [] \<and> new1 \<noteq> [] \<and> snd (last new1) = Inl e \<and> r1 = Inl e \<and>
          dyn_translate_loop svc (split_sentences t) [] w = (Inl e, w1)) \<or>
       (\<exists>t parts. x = PStr t \<and> strip t \<noteq> [] \<and> dyn_no_failure new1 \<and>
          dyn_translate_loop svc (split_sentences t) [] w = (Inr parts, w1) \<and>
          (if \<exists>v\<in>set parts. \<not> is_str v
           then \<exists>k < length parts. \<not> is_str (parts ! k) \<and> (\<forall>j < k. is_str (parts ! j)) \<and>
                  r1 = Inl (TypeError (no_str_message k (parts ! k)))
           else r1 = Inr (join (ascii '' '') (map text_of parts))))"
    by blast
  from cw n(2) assms(2) have nn: "new1 = new" by simp
  note n = n [unfolded nn] and alt = alt [unfolded nn]
  have a: "\<not> isinstance_Exception e \<and> new \<noteq> [] \<and> snd (last new) = Inl e" if "r = Inl e" for e
  proof -
    from h that have r1: "r1 = Inl e" and ne: "\<not> isinstance_Exception e"
      by (auto split: sum.splits if_splits simp: failure_message_def)
    from alt r1 ne show ?thesis by (auto split: if_splits)
  qed
  have b: "r = Inr failure_message \<and> new = [] \<and>
       dyn_shown_errors w' =
         dyn_shown_errors w @ [error_report (AttributeError no_strip_message)]" if "x = PNone"
  proof -
    from alt that have "new = []" "r1 = Inl (AttributeError no_strip_message)" by auto
    with h n(1) show ?thesis by simp
  qed
  have b': "r = Inr failure_message \<and> new = [] \<and>
       dyn_shown_errors w' = dyn_shown_errors w @ [error_report (TypeError in_string_message)]"
    if "x = PBytes b" "bytes_strip b \<noteq> []" for b
  proof -
    from alt that have "new = []" "r1 = Inl (TypeError in_string_message)" by auto
    with h n(1) show ?thesis by simp
  qed
  have fl: "last new = (req, Inl e) \<and> r1 = Inl e" if "(req, Inl e) \<in> set new" for req e
  proof -
    from dyn_failure_is_last [OF n(3) that] have la: "new \<noteq> []" "last new = (req, Inl e)"
      by simp_all
    then have "\<not> dyn_no_failure new" by (simp add: dyn_no_failure_snoc_iff)
    with alt la show ?thesis by auto
  qed
  have c: "r = Inr failure_message \<and> last new = (req, Inl e) \<and>
       dyn_shown_errors w' = dyn_shown_errors w @ [error_report e]"
    if "(req, Inl e) \<in> set new" "isinstance_Exception e" for req e
    using fl [OF that(1)] that(2) h n(1) by simp
  have d: "r = Inl e \<and> last new = (req, Inl e) \<and> dyn_shown_errors w' = dyn_shown_errors w"
    if "(req, Inl e) \<in> set new" "\<not> isinstance_Exception e" for req e
    using fl [OF that(1)] that(2) h n(1) by simp
  have e: "r = Inr failure_message \<and> dyn_calls w' = dyn_calls w1' \<and>
       (\<exists>k < length parts. \<not> is_str (parts ! k) \<and> (\<forall>j < k. is_str (parts ! j)) \<and>
          dyn_shown_errors w' =
            dyn_shown_errors w @ [error_report (TypeError (no_str_message k (parts ! k)))])"
    if "x = PStr t" "strip t \<noteq> []"
      "dyn_translate_loop svc (split_sentences t) [] w = (Inr parts, w1')"
      "\<exists>v\<in>set parts. \<not> is_str v"
    for t parts w1'
  proof -
    from alt that(1,2,3) have w1: "w1' = w1" and
      i: "if \<exists>v\<in>set parts. \<not> is_str v
           then \<exists>k < length parts. \<not> is_str (parts ! k) \<and> (\<forall>j < k. is_str (parts ! j)) \<and>
                  r1 = Inl (TypeError (no_str_message k (parts ! k)))
           else r1 = Inr (join (ascii '' '') (map text_of parts))"
      by auto
    from i that(4) obtain k where
      k: "k < length parts" "\<not> is_str (parts ! k)" "\<forall>j < k. is_str (parts ! j)"
        "r1 = Inl (TypeError (no_str_message k (parts ! k)))" by auto
    from h k(4) n(1) have "r = Inr failure_message"
      "dyn_shown_errors w' =
         dyn_shown_errors w @ [error_report (TypeError (no_str_message k (parts ! k)))]"
      by simp_all
    with k cw w1 show ?thesis by blast
  qed
  from a b b' c d e show ?thesis by blast
qed

theorem dyn_translate_catches_exceptions_witness:
  "fst (dyn_translate quiet_ui none_service PNone dyn_initial_world) = Inr failure_message \<and>
   fst (dyn_translate quiet_ui none_service (PBytes (ascii ''Hi'')) dyn_initial_world) =
     Inr failure_message \<and>
   fst (dyn_translate quiet_ui none_service (PStr (ascii ''Hi. Go'')) dyn_initial_world) =
     Inr failure_message \<and>
   dyn_shown_errors
     (snd (dyn_translate quiet_ui none_service (PStr (ascii ''Hi. Go'')) dyn_initial_world)) =
     [ascii ''Translation error: sequence item 0: expected str instance, NoneType found''] \<and>
   fst (dyn_translate quiet_ui dyn_failing_service (PStr (ascii ''Hi. Go'')) dyn_initial_world) =
     Inr failure_message \<and>
   isinstance_Exception (ServiceError (ascii ''quota'')) \<and>
   fst (dyn_translate quiet_ui dyn_interrupted_service (PStr (ascii ''Hi. Go''))
     dyn_initial_world) = Inl KeyboardInterrupt \<and>
   \<not> isinstance_Exception KeyboardInterrupt"
proof -
  have q: "\<forall>message. quiet_ui message = None" by (simp add: quiet_ui_def)
  let ?w1 = "\<lparr>dyn_calls = [],
     dyn_shown_errors = [error_report (AttributeError no_strip_message)]\<rparr>"
  have a1: "dyn_calls ?w1 = dyn_calls dyn_initial_world @ []" by (simp add: dyn_initial_world_def)
  let ?w5 = "\<lparr>dyn_calls = [],
     dyn_shown_errors = [error_report (TypeError in_string_message)]\<rparr>"
  have a5: "dyn_calls ?w5 = dyn_calls dyn_initial_world @ []" by (simp add: dyn_initial_world_def)
  let ?new2 =
    "[(\<lparr>dyn_source = Auto, dyn_target = En, dyn_payload = PStr (ascii ''Hi.'')\<rparr>, Inr PNone),
      (\<lparr>dyn_source = Auto, dyn_target = En, dyn_payload = PStr (ascii '' Go'')\<rparr>, Inr PNone)]"
  let ?w2 = "\<lparr>dyn_calls = ?new2,
     dyn_shown_errors = [error_report (TypeError (no_str_message 0 PNone))]\<rparr>"
  have a2: "dyn_calls ?w2 = dyn_calls dyn_initial_world @ ?new2"
    by (simp add: dyn_initial_world_def)
  have s2: "strip (ascii ''Hi. Go'') \<noteq> []" by (simp add: strip_def isspace_def ascii_def)
  let ?new3 =
    "[(\<lparr>dyn_source = Auto, dyn_target = En, dyn_payload = PStr (ascii ''Hi.'')\<rparr>,
       Inl (ServiceError (ascii ''quota'')))]"
  let ?w3 = "\<lparr>dyn_calls = ?new3,
     dyn_shown_errors = [error_report (ServiceError (ascii ''quota''))]\<rparr>"
  have a3: "dyn_calls ?w3 = dyn_calls dyn_initial_world @ ?new3"
    by (simp add: dyn_initial_world_def)
  let ?new4 =
    "[(\<lparr>dyn_source = Auto, dyn_target = En, dyn_payload = PStr (ascii ''Hi.'')\<rparr>,
       Inl KeyboardInterrupt)]"
  let ?w4 = "\<lparr>dyn_calls = ?new4, dyn_shown_errors = []\<rparr>"
  have a4: "dyn_calls ?w4 = dyn_calls dyn_initial_world @ ?new4"
    by (simp add: dyn_initial_world_def)
  note t1 = dyn_translate_catches_exceptions [OF run_none_input a1 q]
  note t2 = dyn_translate_catches_exceptions [OF run_none_answer a2 q]
  note t3 = dyn_translate_catches_exceptions [OF run_dyn_failing a3 q]
  note t4 = dyn_translate_catches_exceptions [OF run_dyn_interrupted a4 q]
  note t5 = dyn_translate_catches_exceptions [OF run_bytes_input a5 q]
  from t1 have r1: "fst (dyn_translate quiet_ui none_service PNone dyn_initial_world) =
      Inr failure_message" by (simp add: run_none_input)
  from t5 strip_bytes_input
  have r5: "fst (dyn_translate quiet_ui none_service (PBytes (ascii ''Hi'')) dyn_initial_world) =
      Inr failure_message" by (simp add: run_bytes_input)
  from t2 s2 loop_none_answer
  have r2: "fst (dyn_translate quiet_ui none_service (PStr (ascii ''Hi. Go''))
      dyn_initial_world) = Inr failure_message"
    by (simp add: run_none_answer)
  have r2': "dyn_shown_errors
     (snd (dyn_translate quiet_ui none_service (PStr (ascii ''Hi. Go'')) dyn_initial_world)) =
     [ascii ''Translation error: sequence item 0: expected str instance, NoneType found'']"
    by (simp only: run_none_answer snd_conv dyn_world.simps report_no_str)
  from t3 have r3: "fst (dyn_translate quiet_ui dyn_failing_service (PStr (ascii ''Hi. Go''))
      dyn_initial_world) = Inr failure_message" by (simp add: run_dyn_failing)
  from t4 have r4: "fst (dyn_translate quiet_ui dyn_interrupted_service (PStr (ascii ''Hi. Go''))
      dyn_initial_world) = Inl KeyboardInterrupt" by (simp add: run_dyn_interrupted)
  from r1 r5 r2 r2' r3 r4 show ?thesis by simp
qed

text \<open>
  The same on strings: the interrupted service of the concrete runs above.
\<close>

theorem translate_raises_counterexample:
  "fst (translate interrupted_service (ascii ''Hi'') initial_world) = Inl KeyboardInterrupt \<and>
   fst (translate interrupted_service (ascii ''Hi'') initial_world) \<noteq> Inr failure_message"
  by (simp add: run_interrupted)

section \<open>Properties of the term preservation filter\<close>

text \<open>
  Claim C9. In \<open>I met John on 12/05/2023\<close>, preservation masks \<open>John\<close> and
  \<open>12/05/2023\<close> by two distinct placeholders, \<open>PRESERVED_1\<close> and \<open>PRESERVED_2\<close>, the one
  of \<open>John\<close> first (the capitalised word \<open>I\<close> is masked too, by \<open>PRESERVED_0\<close>), and
  restoration of the masked text with the returned list gives the original text back.
\<close>

theorem preserve_example:
  "preserve_special_terms U (ascii ''I met John on 12/05/2023'') =
     (ascii ''PRESERVED_0 met PRESERVED_1 on PRESERVED_2'',
      [ascii ''I'', ascii ''John'', ascii ''12/05/2023'']) \<and>
   ascii ''PRESERVED_0 met PRESERVED_1 on PRESERVED_2'' =
     marker 0 @ ascii '' met '' @ marker 1 @ ascii '' on '' @ marker 2 \<and>
   marker 1 \<noteq> marker 2 \<and>
   restore_preserved_terms (ascii ''PRESERVED_0 met PRESERVED_1 on PRESERVED_2'')
     [ascii ''I'', ascii ''John'', ascii ''12/05/2023''] = ascii ''I met John on 12/05/2023''"
proof -
  have a: "preserve_special_terms U (ascii ''I met John on 12/05/2023'') =
     (ascii ''PRESERVED_0 met PRESERVED_1 on PRESERVED_2'',
      [ascii ''I'', ascii ''John'', ascii ''12/05/2023''])"
    by code_simp
  have b: "ascii ''PRESERVED_0 met PRESERVED_1 on PRESERVED_2'' =
     marker 0 @ ascii '' met '' @ marker 1 @ ascii '' on '' @ marker 2"
    by code_simp
  have c: "marker 1 \<noteq> marker 2"
    by code_simp
  have d: "restore_preserved_terms (ascii ''PRESERVED_0 met PRESERVED_1 on PRESERVED_2'')
     [ascii ''I'', ascii ''John'', ascii ''12/05/2023''] = ascii ''I met John on 12/05/2023''"
    by code_simp
  from a b c d show ?thesis by blast
qed

text \<open>
  Claim C2 fails on the code. Eleven capitalised words give the placeholders
  \<open>PRESERVED_0\<close> to \<open>PRESERVED_10\<close>; restoration replaces \<open>PRESERVED_1\<close> first, also
  where it is the beginning of \<open>PRESERVED_10\<close>, and the last word comes back as \<open>B0\<close>.
\<close>

theorem restore_after_preserve_eleven_terms:
  "preserve_special_terms U (ascii ''A B C D E F G H I J K'') =
     (ascii ''PRESERVED_0 PRESERVED_1 PRESERVED_2 PRESERVED_3 PRESERVED_4 PRESERVED_5 PRESERVED_6 PRESERVED_7 PRESERVED_8 PRESERVED_9 PRESERVED_10'',
      [ascii ''A'', ascii ''B'', ascii ''C'', ascii ''D'', ascii ''E'', ascii ''F'', ascii ''G'',
       ascii ''H'', ascii ''I'', ascii ''J'', ascii ''K'']) \<and>
   restore_preserved_terms (fst (preserve_special_terms U (ascii ''A B C D E F G H I J K'')))
     (snd (preserve_special_terms U (ascii ''A B C D E F G H I J K''))) =
     ascii ''A B C D E F G H I J B0'' \<and>
   restore_preserved_terms (fst (preserve_special_terms U (ascii ''A B C D E F G H I J K'')))
     (snd (preserve_special_terms U (ascii ''A B C D E F G H I J K''))) \<noteq>
     ascii ''A B C D E F G H I J K''"
proof -
  have a: "preserve_special_terms U (ascii ''A B C D E F G H I J K'') =
     (ascii ''PRESERVED_0 PRESERVED_1 PRESERVED_2 PRESERVED_3 PRESERVED_4 PRESERVED_5 PRESERVED_6 PRESERVED_7 PRESERVED_8 PRESERVED_9 PRESERVED_10'',
      [ascii ''A'', ascii ''B'', ascii ''C'', ascii ''D'', ascii ''E'', ascii ''F'', ascii ''G'',
       ascii ''H'', ascii ''I'', ascii ''J'', ascii ''K''])"
    by code_simp
  have b: "restore_preserved_terms
     (ascii ''PRESERVED_0 PRESERVED_1 PRESERVED_2 PRESERVED_3 PRESERVED_4 PRESERVED_5 PRESERVED_6 PRESERVED_7 PRESERVED_8 PRESERVED_9 PRESERVED_10'')
     [ascii ''A'', ascii ''B'', ascii ''C'', ascii ''D'', ascii ''E'', ascii ''F'', ascii ''G'',
       ascii ''H'', ascii ''I'', ascii ''J'', ascii ''K''] = ascii ''A B C D E F G H I J B0''"
    by code_simp
  have c: "ascii ''A B C D E F G H I J B0'' \<noteq> ascii ''A B C D E F G H I J K''"
    by (simp add: ascii_def)
  from a b c show ?thesis by simp
qed

subsection \<open>Decimal digits\<close>

lemma str_nat_digits: "str_nat n \<noteq> [] \<and> (\<forall>c\<in>set (str_nat n). ascii_digit c)"
proof (induction n rule: str_nat.induct)
  case (1 n)
  show ?case
  proof (cases "n < 10")
    case True
    then show ?thesis by (simp add: str_nat.simps [of n] ascii_digit_def)
  next
    case False
    have "n mod 10 < 10" by simp
    then have "ascii_digit (48 + n mod 10)" unfolding ascii_digit_def by linarith
    with False "1.IH" show ?thesis by (simp add: str_nat.simps [of n])
  qed
qed

lemma nat_of_digits_snoc: "nat_of_digits (ds @ [d]) = 10 * nat_of_digits ds + (d - 48)"
  by (simp add: nat_of_digits_def)

lemma nat_of_digits_str_nat: "nat_of_digits (str_nat n) = n"
proof (induction n rule: str_nat.induct)
  case (1 n)
  show ?case
  proof (cases "n < 10")
    case True
    then show ?thesis by (simp add: str_nat.simps [of n] nat_of_digits_def)
  next
    case False
    with "1.IH" show ?thesis
      by (simp add: str_nat.simps [of n] nat_of_digits_snoc)
  qed
qed

lemma length_prefix: "length (ascii ''PRESERVED_'') = 10"
  by (simp add: ascii_def)

lemma marker_not_Nil: "marker k \<noteq> []"
  by (simp add: marker_def ascii_def)

lemma hd_marker: "hd (marker k) = 80"
  by (simp add: marker_def ascii_def)

subsection \<open>Reading placeholders\<close>

lemma token_at_marker:
  assumes "r = [] \<or> \<not> ascii_digit (hd r)"
  shows "token_at (marker k @ r) = Some (k, length (marker k))"
proof -
  have d: "drop 10 (marker k @ r) = str_nat k @ r"
    by (simp add: marker_def length_prefix)
  have t: "take 10 (marker k @ r) = ascii ''PRESERVED_''"
    by (simp add: marker_def length_prefix)
  have "takeWhile ascii_digit r = []"
    using assms by (auto simp: takeWhile_eq_Nil_iff)
  then have w: "takeWhile ascii_digit (str_nat k @ r) = str_nat k"
    using str_nat_digits [of k] by simp
  show ?thesis
    using str_nat_digits [of k]
    by (simp add: token_at_def d t w nat_of_digits_str_nat marker_def length_prefix)
qed

lemma token_at_Some:
  assumes "token_at t = Some (k, n)"
  shows "10 < n \<and> n \<le> length t \<and> take 10 t = ascii ''PRESERVED_'' \<and>
    (\<forall>j. 10 \<le> j \<and> j < n \<longrightarrow> ascii_digit (t ! j)) \<and>
    (n = length t \<or> \<not> ascii_digit (t ! n))"
proof -
  let ?ds = "takeWhile ascii_digit (drop 10 t)"
  from assms have p: "take 10 t = ascii ''PRESERVED_''" and ne: "?ds \<noteq> []"
    and n: "n = 10 + length ?ds"
    by (auto simp: token_at_def Let_def split: if_splits)
  have le: "length ?ds \<le> length t - 10"
    using length_takeWhile_le [of ascii_digit "drop 10 t"] by simp
  from p have l10: "10 \<le> length t"
    by (metis length_prefix length_take min.cobounded1)
  have dig: "ascii_digit (t ! j)" if "10 \<le> j" "j < n" for j
  proof -
    from that n have j: "j - 10 < length ?ds" by simp
    then have "?ds ! (j - 10) = drop 10 t ! (j - 10)" by (rule takeWhile_nth)
    moreover have "?ds ! (j - 10) \<in> set ?ds" using j by simp
    then have "ascii_digit (?ds ! (j - 10))" by (meson set_takeWhileD)
    ultimately show ?thesis using that l10 le j by simp
  qed
  have stop: "n = length t \<or> \<not> ascii_digit (t ! n)"
  proof (cases "n = length t")
    case False
    with n le l10 have lt: "length ?ds < length (drop 10 t)" by simp
    then have "\<not> ascii_digit (drop 10 t ! length ?ds)" by (rule nth_length_takeWhile)
    with n l10 lt show ?thesis by (simp add: add.commute)
  qed simp
  from ne n le l10 p dig stop show ?thesis by auto
qed

lemma tokens_loop_skip:
  "tokens_loop (xs @ r) (length xs) = tokens_loop r 0"
  by (induction xs) simp_all

lemma tokens_Nil: "tokens [] = []"
  by (simp add: tokens_def)

lemma tokens_plain:
  "token_at (c # r) = None \<Longrightarrow> tokens (c # r) = Plain c # tokens r"
  by (simp add: tokens_def)

lemma tokens_token:
  assumes "token_at t = Some (k, n)"
  shows "tokens t = Placeholder k # tokens (drop n t)"
proof -
  from token_at_Some [OF assms] have n: "10 < n" "n \<le> length t" by simp_all
  then obtain c cs where t: "t = c # cs" by (cases t) auto
  from n t have "cs = take (n - 1) cs @ drop (n - 1) cs" "length (take (n - 1) cs) = n - 1"
    by simp_all
  then have "tokens_loop cs (n - 1) = tokens_loop (drop (n - 1) cs) 0"
    by (metis tokens_loop_skip)
  moreover have "drop n t = drop (n - 1) cs" using n t by (cases n) simp_all
  ultimately show ?thesis using assms t by (simp add: tokens_def)
qed

lemma tokens_marker:
  assumes "r = [] \<or> \<not> ascii_digit (hd r)"
  shows "tokens (marker k @ r) = Placeholder k # tokens r"
  using tokens_token [OF token_at_marker [OF assms]] by simp

lemma tokens_plain_run:
  assumes "\<forall>j<length xs. token_at (drop j (xs @ r)) = None"
  shows "tokens (xs @ r) = map Plain xs @ tokens r"
  using assms
proof (induction xs)
  case Nil
  then show ?case by simp
next
  case (Cons x xs)
  from Cons.prems have "token_at ((x # xs) @ r) = None" by force
  then have a: "tokens ((x # xs) @ r) = Plain x # tokens (xs @ r)"
    by (simp add: tokens_plain)
  have "\<forall>j<length xs. token_at (drop j (xs @ r)) = None"
  proof (intro allI impI)
    fix j assume "j < length xs"
    then have "Suc j < length (x # xs)" by simp
    with Cons.prems have "token_at (drop (Suc j) ((x # xs) @ r)) = None" by blast
    then show "token_at (drop j (xs @ r)) = None" by simp
  qed
  from Cons.IH [OF this] a show ?case by simp
qed

subsection \<open>The ends a pattern offers\<close>

lemma rx_seq_iff:
  "e \<in> set (rx_seq r1 r2 prev t i) \<longleftrightarrow> (\<exists>m\<in>set (r1 prev t i). e \<in> set (r2 prev t m))"
  by (auto simp: rx_seq_def)

lemma rx_wordb_iff:
  "e \<in> set (rx_wordb U prev t i) \<longleftrightarrow>
     e = i \<and> word_opt U (char_before prev t i) \<noteq> word_opt U (char_at t i)"
  by (auto simp: rx_wordb_def)

lemma rx_cls_iff:
  "e \<in> set (rx_cls p prev t i) \<longleftrightarrow> e = Suc i \<and> i < length t \<and> p (t ! i)"
  by (auto simp: rx_cls_def)

lemma rx_star_upto_iff:
  "e \<in> set (rx_star_upto (Suc n) r prev t i) \<longleftrightarrow>
     e = i \<or> (\<exists>m\<in>set (r prev t i). i < m \<and> e \<in> set (rx_star_upto n r prev t m))"
  by auto

lemma rx_within_cls: "(\<And>c. p c \<Longrightarrow> Q c) \<Longrightarrow> rx_within Q (rx_cls p)"
  unfolding rx_within_def
proof (intro allI impI)
  fix prev t i e
  assume p: "\<And>c. p c \<Longrightarrow> Q c" and e: "e \<in> set (rx_cls p prev t i)"
  then have a: "e = Suc i" "i < length t" "Q (t ! i)" by (auto simp: rx_cls_iff)
  have "Q (t ! j)" if "i \<le> j \<and> j < e" for j
    using that a by (cases "j = i") auto
  with a show "i \<le> e \<and> e \<le> length t \<and> (\<forall>j. i \<le> j \<and> j < e \<longrightarrow> Q (t ! j))" by auto
qed

lemma rx_within_seq:
  assumes "rx_within Q r1" "rx_within Q r2"
  shows "rx_within Q (rx_seq r1 r2)"
  unfolding rx_within_def
proof (intro allI impI)
  fix prev t i e
  assume "e \<in> set (rx_seq r1 r2 prev t i)"
  then obtain m where m: "m \<in> set (r1 prev t i)" "e \<in> set (r2 prev t m)"
    by (auto simp: rx_seq_iff)
  from assms(1) m(1) have a: "i \<le> m" "\<forall>j. i \<le> j \<and> j < m \<longrightarrow> Q (t ! j)"
    unfolding rx_within_def by blast+
  from assms(2) m(2) have b: "m \<le> e" "e \<le> length t" "\<forall>j. m \<le> j \<and> j < e \<longrightarrow> Q (t ! j)"
    unfolding rx_within_def by blast+
  have "Q (t ! j)" if "i \<le> j \<and> j < e" for j
    using that a b by (cases "j < m") auto
  with a b show "i \<le> e \<and> e \<le> length t \<and> (\<forall>j. i \<le> j \<and> j < e \<longrightarrow> Q (t ! j))" by auto
qed

lemma rx_within_star_upto:
  assumes "rx_within Q r"
  shows "e \<in> set (rx_star_upto n r prev t i) \<Longrightarrow> i \<le> length t \<Longrightarrow>
    i \<le> e \<and> e \<le> length t \<and> (\<forall>j. i \<le> j \<and> j < e \<longrightarrow> Q (t ! j))"
proof (induction n arbitrary: i)
  case 0
  then show ?case by auto
next
  case (Suc n)
  from Suc.prems(1) consider "e = i"
    | m where "m \<in> set (r prev t i)" "i < m" "e \<in> set (rx_star_upto n r prev t m)"
    by (auto simp: rx_star_upto_iff)
  then show ?case
  proof cases
    case 1
    with Suc.prems(2) show ?thesis by auto
  next
    case 2
    from assms 2(1) have a: "m \<le> length t" "\<forall>j. i \<le> j \<and> j < m \<longrightarrow> Q (t ! j)"
      unfolding rx_within_def by blast+
    from Suc.IH [OF 2(3) a(1)] have
      b: "m \<le> e" "e \<le> length t" "\<forall>j. m \<le> j \<and> j < e \<longrightarrow> Q (t ! j)" by blast+
    have "Q (t ! j)" if "i \<le> j \<and> j < e" for j
      using that a b by (cases "j < m") auto
    with 2(2) b show ?thesis by auto
  qed
qed

lemma rx_within_seq_star:
  assumes "rx_within Q r1" "rx_within Q r2"
  shows "rx_within Q (rx_seq r1 (rx_star r2))"
  unfolding rx_within_def
proof (intro allI impI)
  fix prev t i e
  assume "e \<in> set (rx_seq r1 (rx_star r2) prev t i)"
  then obtain m where m: "m \<in> set (r1 prev t i)" "e \<in> set (rx_star_upto (length t) r2 prev t m)"
    by (auto simp: rx_seq_iff rx_star_def)
  from assms(1) m(1) have a: "i \<le> m" "m \<le> length t" "\<forall>j. i \<le> j \<and> j < m \<longrightarrow> Q (t ! j)"
    unfolding rx_within_def by blast+
  from rx_within_star_upto [OF assms(2) m(2) a(2)] have
    b: "m \<le> e" "e \<le> length t" "\<forall>j. m \<le> j \<and> j < e \<longrightarrow> Q (t ! j)" by blast+
  have "Q (t ! j)" if "i \<le> j \<and> j < e" for j
    using that a b by (cases "j < m") auto
  with a b show "i \<le> e \<and> e \<le> length t \<and> (\<forall>j. i \<le> j \<and> j < e \<longrightarrow> Q (t ! j))" by auto
qed

lemma rx_ends_cls: "(\<And>c. p c \<Longrightarrow> Q c) \<Longrightarrow> rx_ends Q (rx_cls p)"
  by (auto simp: rx_ends_def rx_cls_iff)

lemma rx_ends_star_upto:
  assumes "rx_ends Q r"
  shows "e \<in> set (rx_star_upto n r prev t i) \<Longrightarrow> e = i \<or> (i < e \<and> Q (t ! (e - 1)))"
proof (induction n arbitrary: i)
  case 0
  then show ?case by simp
next
  case (Suc n)
  from Suc.prems consider "e = i"
    | m where "m \<in> set (r prev t i)" "i < m" "e \<in> set (rx_star_upto n r prev t m)"
    by (auto simp: rx_star_upto_iff)
  then show ?case
  proof cases
    case 1
    then show ?thesis by simp
  next
    case 2
    from assms 2(1) have "Q (t ! (m - 1))" unfolding rx_ends_def by blast
    with Suc.IH [OF 2(3)] 2(2) show ?thesis by auto
  qed
qed

lemma rx_ends_seq_star:
  assumes "rx_ends Q r1" "rx_ends Q r2"
  shows "rx_ends Q (rx_seq r1 (rx_star r2))"
  unfolding rx_ends_def
proof (intro allI impI)
  fix prev t i e
  assume "e \<in> set (rx_seq r1 (rx_star r2) prev t i)"
  then obtain m where m: "m \<in> set (r1 prev t i)" "e \<in> set (rx_star_upto (length t) r2 prev t m)"
    by (auto simp: rx_seq_iff rx_star_def)
  from assms(1) m(1) have "i < m" "Q (t ! (m - 1))" unfolding rx_ends_def by blast+
  with rx_ends_star_upto [OF assms(2) m(2)] show "i < e \<and> Q (t ! (e - 1))" by auto
qed

lemma rx_ends_seq:
  assumes "rx_within Q' r1" "rx_ends Q r2"
  shows "rx_ends Q (rx_seq r1 r2)"
  unfolding rx_ends_def
proof (intro allI impI)
  fix prev t i e
  assume "e \<in> set (rx_seq r1 r2 prev t i)"
  then obtain m where m: "m \<in> set (r1 prev t i)" "e \<in> set (r2 prev t m)"
    by (auto simp: rx_seq_iff)
  from assms(1) m(1) have "i \<le> m" unfolding rx_within_def by blast
  moreover from assms(2) m(2) have "m < e" "Q (t ! (e - 1))" unfolding rx_ends_def by blast+
  ultimately show "i < e \<and> Q (t ! (e - 1))" by auto
qed

subsection \<open>The two patterns are delimited\<close>

lemma proper_noun_pattern_iff:
  "e \<in> set (proper_noun_pattern U prev t 0) \<longleftrightarrow>
     word_opt U prev \<noteq> word_opt U (char_at t 0) \<and> e \<in> set (proper_noun_body prev t 0) \<and>
     word_opt U (char_before prev t e) \<noteq> word_opt U (char_at t e)"
  by (auto simp: proper_noun_pattern_def proper_noun_body_def rx_seq_iff rx_wordb_iff
      char_before_def)

lemma number_pattern_iff:
  "e \<in> set (number_pattern U prev t 0) \<longleftrightarrow>
     word_opt U prev \<noteq> word_opt U (char_at t 0) \<and> e \<in> set (number_body U prev t 0) \<and>
     word_opt U (char_before prev t e) \<noteq> word_opt U (char_at t e)"
  by (auto simp: number_pattern_def number_body_def rx_seq_iff rx_wordb_iff char_before_def)

lemma letter_word: "is_letter c \<Longrightarrow> is_word U c \<and> c \<noteq> 95"
  by (auto simp: is_letter_def is_word_def)

lemma upper_letter: "is_upper c \<Longrightarrow> is_letter c"
  by (auto simp: is_upper_def is_letter_def)

lemma digit_word: "is_digit U c \<Longrightarrow> is_word U c \<and> c \<noteq> 95"
  by (auto simp: is_digit_def is_word_def split: if_splits)

lemma upper_word: "is_upper c \<Longrightarrow> is_word U c"
  by (auto simp: is_upper_def is_word_def)

lemma digit_is_word: "is_digit U c \<Longrightarrow> is_word U c"
  by (auto simp: is_digit_def is_word_def split: if_splits)

lemma sep_not_underscore: "is_sep c \<Longrightarrow> c \<noteq> 95"
  by (auto simp: is_sep_def)

lemma proper_noun_body_within: "rx_within is_letter proper_noun_body"
  unfolding proper_noun_body_def
  by (intro rx_within_seq_star rx_within_cls) (auto dest: upper_letter)

lemma proper_noun_body_ends: "rx_ends is_letter proper_noun_body"
  unfolding proper_noun_body_def
  by (intro rx_ends_seq_star rx_ends_cls) (auto dest: upper_letter)

lemma number_body_within: "rx_within (\<lambda>c. is_digit U c \<or> is_sep c) (number_body U)"
  unfolding number_body_def rx_plus_def
  by (intro rx_within_seq_star rx_within_seq rx_within_cls) auto

lemma number_body_ends: "rx_ends (is_digit U) (number_body U)"
  unfolding number_body_def rx_plus_def
  by (intro rx_ends_seq_star rx_ends_seq [where Q' = is_sep] rx_ends_cls rx_within_cls) auto

lemma delimited_body:
  assumes iff: "\<And>prev t e. e \<in> set (r prev t 0) \<Longrightarrow>
      word_opt U prev \<noteq> word_opt U (char_at t 0) \<and> e \<in> set (body prev t 0) \<and>
      word_opt U (char_before prev t e) \<noteq> word_opt U (char_at t e)"
    and within: "rx_within Qin body" and ends: "rx_ends Qw body"
    and qin: "\<And>c. Qin c \<Longrightarrow> c \<noteq> 95" and qw: "\<And>c. Qw c \<Longrightarrow> is_word U c"
    and start: "\<And>prev t e. e \<in> set (body prev t 0) \<Longrightarrow> is_word U (t ! 0)"
  shows "delimited U r"
  unfolding delimited_def
proof (intro allI impI)
  fix prev t n
  assume "rx_match r prev t = Some n"
  then have "n \<in> set (r prev t 0)"
    by (auto simp: rx_match_def split: list.splits)
  from iff [OF this] have b0: "word_opt U prev \<noteq> word_opt U (char_at t 0)"
    and body: "n \<in> set (body prev t 0)"
    and bn: "word_opt U (char_before prev t n) \<noteq> word_opt U (char_at t n)" by blast+
  from within body have le: "n \<le> length t" and inside: "\<forall>j. j < n \<longrightarrow> Qin (t ! j)"
    unfolding rx_within_def by blast+
  from ends body have pos: "0 < n" and lastw: "is_word U (t ! (n - 1))"
    unfolding rx_ends_def using qw by blast+
  have us: "95 \<notin> set (take n t)"
  proof
    assume "95 \<in> set (take n t)"
    then obtain j where "j < length (take n t)" "take n t ! j = 95"
      by (auto simp: in_set_conv_nth)
    with le have "j < n" "t ! j = 95" by simp_all
    with inside qin show False by blast
  qed
  from pos lastw bn have "\<not> word_opt U (char_at t n)"
    by (simp add: char_before_def word_opt_def)
  then have stop: "n = length t \<or> \<not> is_word U (t ! n)"
    using le by (auto simp: char_at_def word_opt_def split: if_splits)
  from start [OF body] have w0: "is_word U (t ! 0)" .
  with pos le b0 have "\<not> word_opt U prev"
    by (auto simp: char_at_def word_opt_def)
  with pos le us stop w0
  show "0 < n \<and> n \<le> length t \<and> 95 \<notin> set (take n t) \<and>
        (n = length t \<or> \<not> is_word U (t ! n)) \<and> is_word U (t ! 0) \<and> \<not> word_opt U prev"
    by blast
qed

lemma delimited_proper_noun: "delimited U (proper_noun_pattern U)"
proof (rule delimited_body [where body = proper_noun_body and Qin = is_letter and Qw = is_letter])
  show "is_word U (t ! 0)" if "e \<in> set (proper_noun_body prev t 0)" for prev t e
    using that
    by (auto simp: proper_noun_body_def rx_seq_iff rx_cls_iff intro: upper_word)
qed (auto simp: proper_noun_pattern_iff proper_noun_body_within proper_noun_body_ends
    dest: letter_word)

lemma delimited_number: "delimited U (number_pattern U)"
proof (rule delimited_body [where body = "number_body U"
      and Qin = "\<lambda>c. is_digit U c \<or> is_sep c" and Qw = "is_digit U"])
  show "is_word U (t ! 0)" if "e \<in> set (number_body U prev t 0)" for prev t e
    using that
    by (auto simp: number_body_def rx_plus_def rx_seq_iff rx_cls_iff intro!: digit_is_word)
qed (auto simp: number_pattern_iff number_body_within number_body_ends
    dest: digit_word sep_not_underscore)

subsection \<open>Steps of the substitution\<close>

lemma sub_loop_skip:
  "sub_loop r prev (xs @ ys) (length xs) ps =
     sub_loop r (if xs = [] then prev else Some (last xs)) ys 0 ps"
  by (induction xs arbitrary: prev) simp_all

lemma sub_loop_Nil: "sub_loop r prev [] 0 ps = ([], ps)"
  by simp

lemma sub_loop_copy:
  assumes "rx_match r prev (c # cs) = None"
  shows "sub_loop r prev (c # cs) 0 ps =
    (c # fst (sub_loop r (Some c) cs 0 ps), snd (sub_loop r (Some c) cs 0 ps))"
  using assms by (simp add: case_prod_beta)

lemma sub_loop_match:
  assumes "rx_match r prev t = Some n" "0 < n" "n \<le> length t"
  shows "sub_loop r prev t 0 ps =
    (marker (length ps) @ fst (sub_loop r (Some (t ! (n - 1))) (drop n t) 0 (ps @ [take n t])),
     snd (sub_loop r (Some (t ! (n - 1))) (drop n t) 0 (ps @ [take n t])))"
proof -
  from assms obtain c cs where t: "t = c # cs" by (cases t) auto
  let ?xs = "take (n - 1) cs"
  from assms t have len: "length ?xs = n - 1" by simp
  have "sub_loop r (Some c) cs (n - 1) (ps @ [take n t]) =
      sub_loop r (Some c) (?xs @ drop (n - 1) cs) (length ?xs) (ps @ [take n t])"
    using len by simp
  also have "\<dots> = sub_loop r (if ?xs = [] then Some c else Some (last ?xs)) (drop (n - 1) cs) 0
      (ps @ [take n t])"
    by (rule sub_loop_skip)
  finally have skip: "sub_loop r (Some c) cs (n - 1) (ps @ [take n t]) =
      sub_loop r (if ?xs = [] then Some c else Some (last ?xs)) (drop (n - 1) cs) 0
        (ps @ [take n t])" .
  have prev': "(if ?xs = [] then Some c else Some (last ?xs)) = Some (t ! (n - 1))"
  proof (cases "n = 1")
    case True
    with t show ?thesis by simp
  next
    case False
    with assms have n2: "2 \<le> n" by simp
    with assms t have ne: "?xs \<noteq> []" by auto
    have "last ?xs = ?xs ! (length ?xs - 1)" using ne by (rule last_conv_nth)
    also have "\<dots> = cs ! (n - 2)" using len n2 by (simp add: numeral_2_eq_2)
    also have "\<dots> = t ! (n - 1)" using t n2 by (cases n) (simp_all add: numeral_2_eq_2)
    finally show ?thesis using ne by simp
  qed
  have d: "drop n t = drop (n - 1) cs" using assms t by (cases n) simp_all
  show ?thesis
    using assms(1) t skip prev' d
    by (simp add: case_prod_beta preserve_term_def)
qed

lemma sub_loop_head:
  assumes "fst (sub_loop r prev t 0 ps) = a # out" "a \<noteq> 80"
  shows "\<exists>cs. t = a # cs \<and> rx_match r prev t = None \<and> out = fst (sub_loop r (Some a) cs 0 ps)"
proof (cases t)
  case Nil
  with assms show ?thesis by simp
next
  case (Cons c cs)
  show ?thesis
  proof (cases "rx_match r prev (c # cs)")
    case None
    with assms Cons show ?thesis by (auto simp: case_prod_beta)
  next
    case (Some n)
    with Cons have "fst (sub_loop r prev t 0 ps) =
        marker (length ps) @ fst (sub_loop r (Some c) cs (n - 1) (ps @ [take n (c # cs)]))"
      by (simp add: case_prod_beta preserve_term_def)
    with assms(1) have "hd (marker (length ps)) = a"
      using marker_not_Nil [of "length ps"] by (metis hd_append2 list.sel(1))
    with assms(2) show ?thesis by (simp add: hd_marker)
  qed
qed

lemma sub_loop_out_Nil:
  assumes "fst (sub_loop r prev t 0 ps) = []"
  shows "t = []"
proof (cases t)
  case (Cons c cs)
  with assms marker_not_Nil [of "length ps"] show ?thesis
    by (cases "rx_match r prev (c # cs)") (simp_all add: case_prod_beta preserve_term_def)
qed simp

lemma sub_loop_hd:
  assumes "t \<noteq> []"
  shows "fst (sub_loop r prev t 0 ps) \<noteq> [] \<and>
    (hd (fst (sub_loop r prev t 0 ps)) = hd t \<or> hd (fst (sub_loop r prev t 0 ps)) = 80)"
proof -
  from assms obtain c cs where t: "t = c # cs" by (cases t) auto
  show ?thesis
  proof (cases "rx_match r prev (c # cs)")
    case None
    with t show ?thesis by (simp add: case_prod_beta)
  next
    case (Some n)
    with t marker_not_Nil [of "length ps"] hd_marker [of "length ps"] show ?thesis
      by (simp add: case_prod_beta preserve_term_def)
  qed
qed

lemma digit_not_P: "ascii_digit c \<Longrightarrow> c \<noteq> 80"
  by (auto simp: ascii_digit_def)

lemma sub_loop_no_digit_first:
  assumes "t = [] \<or> \<not> ascii_digit (hd t)"
  shows "fst (sub_loop r prev t 0 ps) = [] \<or> \<not> ascii_digit (hd (fst (sub_loop r prev t 0 ps)))"
proof (cases "t = []")
  case True
  then show ?thesis by simp
next
  case False
  with assms sub_loop_hd [OF False, of r prev ps] show ?thesis
    by (auto dest: digit_not_P)
qed

lemma sub_loop_prefix:
  "80 \<notin> set (take m (fst (sub_loop r prev t 0 ps))) \<Longrightarrow>
   take m t = take m (fst (sub_loop r prev t 0 ps))"
proof (induction m arbitrary: t prev)
  case 0
  then show ?case by simp
next
  case (Suc m)
  show ?case
  proof (cases "fst (sub_loop r prev t 0 ps)")
    case Nil
    then show ?thesis using sub_loop_out_Nil by fastforce
  next
    case (Cons a out)
    with Suc.prems have a: "a \<noteq> 80" and rest: "80 \<notin> set (take m out)" by auto
    from sub_loop_head [OF Cons a] obtain cs where
      cs: "t = a # cs" "out = fst (sub_loop r (Some a) cs 0 ps)" by blast
    from rest cs(2) Suc.IH have "take m cs = take m out" by blast
    with cs(1) Cons show ?thesis by simp
  qed
qed

lemma sub_loop_copy_run:
  "m \<le> length t \<Longrightarrow>
   \<forall>j<m. rx_match r (if j = 0 then prev else Some (t ! (j - 1))) (drop j t) = None \<Longrightarrow>
   sub_loop r prev t 0 ps =
     (take m t @ fst (sub_loop r (if m = 0 then prev else Some (t ! (m - 1))) (drop m t) 0 ps),
      snd (sub_loop r (if m = 0 then prev else Some (t ! (m - 1))) (drop m t) 0 ps))"
proof (induction m arbitrary: t prev)
  case 0
  then show ?case by simp
next
  case (Suc m)
  from Suc.prems(1) obtain c cs where t: "t = c # cs" by (cases t) auto
  from Suc.prems(2) have "rx_match r prev (drop 0 t) = None" by force
  with t have nomatch: "rx_match r prev (c # cs) = None" by simp
  have rest: "\<forall>j<m. rx_match r (if j = 0 then Some c else Some (cs ! (j - 1))) (drop j cs) = None"
  proof (intro allI impI)
    fix j assume "j < m"
    then have "Suc j < Suc m" by simp
    with Suc.prems(2) have "rx_match r (Some (t ! j)) (drop (Suc j) t) = None" by force
    with t show "rx_match r (if j = 0 then Some c else Some (cs ! (j - 1))) (drop j cs) = None"
      by (cases j) simp_all
  qed
  from Suc.prems(1) t have "m \<le> length cs" by simp
  from Suc.IH [OF this rest] have ih: "sub_loop r (Some c) cs 0 ps =
     (take m cs @ fst (sub_loop r (if m = 0 then Some c else Some (cs ! (m - 1))) (drop m cs) 0 ps),
      snd (sub_loop r (if m = 0 then Some c else Some (cs ! (m - 1))) (drop m cs) 0 ps))" .
  have p: "(if m = 0 then Some c else Some (cs ! (m - 1))) = Some (t ! m)"
    using t by (cases m) simp_all
  show ?case
    using sub_loop_copy [OF nomatch, of ps] ih p t by simp
qed

subsection \<open>Placeholders and matches do not overlap\<close>

lemma token_at_None_iff:
  "token_at t = None \<longleftrightarrow>
     \<not> (take 10 t = ascii ''PRESERVED_'' \<and> 10 < length t \<and> ascii_digit (t ! 10))"
proof -
  have "takeWhile ascii_digit (drop 10 t) = [] \<longleftrightarrow> \<not> (10 < length t \<and> ascii_digit (t ! 10))"
    by (auto simp: takeWhile_eq_Nil_iff hd_drop_conv_nth)
  then show ?thesis by (auto simp: token_at_def Let_def)
qed

lemma token_at_cong:
  assumes "take 11 t = take 11 t'"
  shows "token_at t = None \<longleftrightarrow> token_at t' = None"
proof -
  have "take 10 (take 11 t) = take 10 (take 11 t')" using assms by simp
  then have a: "take 10 t = take 10 t'" by simp
  have b: "10 < length t \<longleftrightarrow> 10 < length t'"
    using arg_cong [OF assms, of length] by auto
  have c: "t ! 10 = t' ! 10" if "10 < length t"
    using that b arg_cong [OF assms, of "\<lambda>xs. xs ! 10"] by simp
  from a b c show ?thesis unfolding token_at_None_iff by auto
qed

lemma prefix_chars:
  "i < 10 \<Longrightarrow> is_word U (ascii ''PRESERVED_'' ! i)"
  "ascii ''PRESERVED_'' ! 9 = 95"
proof -
  have w: "\<forall>c\<in>set (ascii ''PRESERVED_''). is_word U c"
    by (simp add: ascii_def is_word_def)
  show "i < 10 \<Longrightarrow> is_word U (ascii ''PRESERVED_'' ! i)"
  proof -
    assume "i < 10"
    then have "ascii ''PRESERVED_'' ! i \<in> set (ascii ''PRESERVED_'')"
      by (simp add: length_prefix)
    with w show ?thesis by blast
  qed
  show "ascii ''PRESERVED_'' ! 9 = 95" by (simp add: ascii_def)
qed

lemma ascii_digit_word: "ascii_digit c \<Longrightarrow> is_word U c"
  by (auto simp: ascii_digit_def is_word_def)

lemma token_chars_word:
  assumes "token_at t = Some (k, n)" "i < n"
  shows "is_word U (t ! i)"
proof (cases "i < 10")
  case True
  from token_at_Some [OF assms(1)] have "take 10 t = ascii ''PRESERVED_''" by simp
  moreover have "take 10 t ! i = t ! i" using True by simp
  ultimately have "t ! i = ascii ''PRESERVED_'' ! i" by simp
  with True show ?thesis by (simp add: prefix_chars(1))
next
  case False
  with token_at_Some [OF assms(1)] assms(2) have "ascii_digit (t ! i)" by simp
  then show ?thesis by (rule ascii_digit_word)
qed

lemma token_at_split:
  assumes "token_at t = Some (k, n)"
  shows "\<exists>ds rest. t = ascii ''PRESERVED_'' @ ds @ rest \<and> ds \<noteq> [] \<and>
    (\<forall>c\<in>set ds. ascii_digit c) \<and> (rest = [] \<or> \<not> ascii_digit (hd rest)) \<and>
    n = 10 + length ds \<and> k = nat_of_digits ds"
proof -
  define ds where "ds = takeWhile ascii_digit (drop 10 t)"
  define rest where "rest = dropWhile ascii_digit (drop 10 t)"
  from assms have p: "take 10 t = ascii ''PRESERVED_''" and ne: "ds \<noteq> []"
    and n: "n = 10 + length ds" and k: "k = nat_of_digits ds"
    unfolding ds_def by (auto simp: token_at_def Let_def split: if_splits)
  have "drop 10 t = ds @ rest" unfolding ds_def rest_def by simp
  then have "take 10 t @ drop 10 t = ascii ''PRESERVED_'' @ ds @ rest" using p by simp
  then have t: "t = ascii ''PRESERVED_'' @ ds @ rest" by simp
  have dig: "\<forall>c\<in>set ds. ascii_digit c" unfolding ds_def by (meson set_takeWhileD)
  have stop: "rest = [] \<or> \<not> ascii_digit (hd rest)"
    unfolding rest_def using hd_dropWhile by blast
  from t ne dig stop n k show ?thesis by blast
qed

lemma token_at_literal:
  assumes "ds \<noteq> []" "\<forall>c\<in>set ds. ascii_digit c" "r = [] \<or> \<not> ascii_digit (hd r)"
  shows "token_at (ascii ''PRESERVED_'' @ ds @ r) = Some (nat_of_digits ds, 10 + length ds)"
proof -
  have "takeWhile ascii_digit r = []"
    using assms(3) by (auto simp: takeWhile_eq_Nil_iff)
  with assms(2) have w: "takeWhile ascii_digit (ds @ r) = ds" by simp
  have d: "drop 10 (ascii ''PRESERVED_'' @ ds @ r) = ds @ r"
    by (simp add: length_prefix)
  have p: "take 10 (ascii ''PRESERVED_'' @ ds @ r) = ascii ''PRESERVED_''"
    by (simp add: length_prefix)
  show ?thesis
    unfolding token_at_def Let_def d w p using assms(1) by simp
qed

lemma token_at_extend:
  assumes "token_at t = Some (k, n)" "r = [] \<or> \<not> ascii_digit (hd r)"
  shows "token_at (take n t @ r) = Some (k, n)"
proof -
  from token_at_split [OF assms(1)] obtain ds rest where
    t: "t = ascii ''PRESERVED_'' @ ds @ rest" and ne: "ds \<noteq> []"
    and dig: "\<forall>c\<in>set ds. ascii_digit c" and n: "n = 10 + length ds"
    and k: "k = nat_of_digits ds" by blast
  have "take n t = ascii ''PRESERVED_'' @ ds"
    unfolding t n by (simp add: length_prefix)
  then have "take n t @ r = ascii ''PRESERVED_'' @ ds @ r" by simp
  with token_at_literal [OF ne dig assms(2)] n k show ?thesis by simp
qed

lemma delimitedD:
  assumes "delimited U r" "rx_match r prev t = Some n"
  shows "0 < n" "n \<le> length t" "95 \<notin> set (take n t)"
    "n = length t \<or> \<not> is_word U (t ! n)" "is_word U (t ! 0)" "\<not> word_opt U prev"
proof -
  note d = assms(1) [unfolded delimited_def, rule_format, OF assms(2)]
  show "0 < n" by (rule d [THEN conjunct1])
  show "n \<le> length t" by (rule d [THEN conjunct2, THEN conjunct1])
  show "95 \<notin> set (take n t)" by (rule d [THEN conjunct2, THEN conjunct2, THEN conjunct1])
  show "n = length t \<or> \<not> is_word U (t ! n)"
    by (rule d [THEN conjunct2, THEN conjunct2, THEN conjunct2, THEN conjunct1])
  show "is_word U (t ! 0)"
    by (rule d [THEN conjunct2, THEN conjunct2, THEN conjunct2, THEN conjunct2, THEN conjunct1])
  show "\<not> word_opt U prev"
    by (rule d [THEN conjunct2, THEN conjunct2, THEN conjunct2, THEN conjunct2, THEN conjunct2])
qed

lemma delimited_no_match_in_token:
  assumes "delimited U r" "token_at t = Some (k, n)" "j < n"
  shows "rx_match r (if j = 0 then prev else Some (t ! (j - 1))) (drop j t) = None"
proof (rule ccontr)
  let ?prev = "if j = 0 then prev else Some (t ! (j - 1))"
  assume "rx_match r ?prev (drop j t) \<noteq> None"
  then obtain m where m: "rx_match r ?prev (drop j t) = Some m" by auto
  note d = delimitedD [OF assms(1) m]
  have pos: "0 < m" and le: "m \<le> length (drop j t)"
    and us: "95 \<notin> set (take m (drop j t))"
    and stop: "m = length (drop j t) \<or> \<not> is_word U (drop j t ! m)"
    and nb: "\<not> word_opt U ?prev"
    by (rule d)+
  from token_at_Some [OF assms(2)] have n10: "10 < n" and nl: "n \<le> length t"
    and p: "take 10 t = ascii ''PRESERVED_''" by blast+
  show False
  proof (cases "j = 0")
    case False
    with assms(3) have "j - 1 < n" by simp
    from token_chars_word [OF assms(2) this] False nb show False
      by (simp add: word_opt_def)
  next
    case True
    have "t ! 9 = take 10 t ! 9" by simp
    also have "\<dots> = ascii ''PRESERVED_'' ! 9" by (simp only: p)
    also have "\<dots> = 95" by (rule prefix_chars(2))
    finally have t9: "t ! 9 = 95" .
    have m9: "m \<le> 9"
    proof (rule ccontr)
      assume "\<not> m \<le> 9"
      then have "9 < m" by simp
      with le True n10 nl have l9: "9 < length (take m t)" by simp
      from \<open>9 < m\<close> t9 have "take m t ! 9 = 95" by simp
      with nth_mem [OF l9] have "95 \<in> set (take m t)" by simp
      with us True show False by simp
    qed
    with n10 have "m < n" by simp
    from token_chars_word [OF assms(2) this] have "is_word U (t ! m)" .
    with stop True m9 n10 nl show False by simp
  qed
qed

lemma delimited_no_token_in_match:
  assumes "delimited U r" "rx_match r prev t = Some n" "j < n"
  shows "token_at (drop j t) = None"
proof (rule ccontr)
  assume "token_at (drop j t) \<noteq> None"
  then obtain k m where tk: "token_at (drop j t) = Some (k, m)" by auto
  note d = delimitedD [OF assms(1,2)]
  have le: "n \<le> length t" and us: "95 \<notin> set (take n t)"
    and stop: "n = length t \<or> \<not> is_word U (t ! n)"
    by (rule d)+
  from token_at_Some [OF tk] have m10: "10 < m" and ml: "m \<le> length (drop j t)"
    and p: "take 10 (drop j t) = ascii ''PRESERVED_''" by blast+
  from ml m10 have jl: "j + 10 < length t" by simp
  have "drop j t ! 9 = take 10 (drop j t) ! 9" by simp
  also have "\<dots> = ascii ''PRESERVED_'' ! 9" by (simp only: p)
  also have "\<dots> = 95" by (rule prefix_chars(2))
  finally have "drop j t ! 9 = 95" .
  with jl have t9: "t ! (j + 9) = 95" by simp
  show False
  proof (cases "j + 9 < n")
    case True
    with le have l9: "j + 9 < length (take n t)" by simp
    from True t9 have "take n t ! (j + 9) = 95" by simp
    with nth_mem [OF l9] have "95 \<in> set (take n t)" by simp
    with us show False by simp
  next
    case False
    with assms(3) have d: "n - j < m" "n = j + (n - j)" using m10 by simp_all
    from token_chars_word [OF tk d(1)] have "is_word U (drop j t ! (n - j))" .
    with jl d have "is_word U (t ! n)" by simp
    with stop False jl show False by simp
  qed
qed

subsection \<open>The placeholders of a substitution\<close>

lemma indices_iff: "k \<in> set (placeholder_indices t) \<longleftrightarrow> Placeholder k \<in> set (tokens t)"
proof -
  have "k \<in> set (index_of x) \<longleftrightarrow> x = Placeholder k" for x
    by (cases x) auto
  then show ?thesis by (auto simp: placeholder_indices_def)
qed

lemma indices_Plain: "concat (map index_of (map Plain xs)) = []"
  by (induction xs) simp_all

lemma unmask_keeps:
  "Placeholder k \<in> set toks \<Longrightarrow> k < b \<Longrightarrow>
   Placeholder k \<in> set (concat (map (unmask b news) toks))"
  by (induction toks) auto

lemma unmask_shift_tok:
  assumes "tok \<noteq> Placeholder b"
  shows "unmask b (x # news) tok = unmask (Suc b) news tok"
proof (cases tok)
  case (Placeholder k)
  with assms have ne: "k \<noteq> b" by simp
  show ?thesis
  proof (cases "b < k")
    case True
    then have "k - b = Suc (k - Suc b)" by simp
    then have "(x # news) ! (k - b) = news ! (k - Suc b)" by simp
    with True Placeholder show ?thesis by auto
  next
    case False
    with ne Placeholder show ?thesis by simp
  qed
qed simp

lemma unmask_shift:
  assumes "Placeholder b \<notin> set toks"
  shows "map (unmask b (x # news)) toks = map (unmask (Suc b) news) toks"
  using assms by (induction toks) (auto simp: unmask_shift_tok)

lemma prefix_Cons: "ascii ''PRESERVED_'' = 80 # ascii ''RESERVED_''"
  by (simp add: ascii_def)

lemma token_no_P:
  assumes "token_at (c # xs) \<noteq> None"
  shows "80 \<notin> set (take 10 xs)"
proof -
  from assms obtain k n where "token_at (c # xs) = Some (k, n)" by auto
  from token_at_split [OF this] obtain ds rest where
    t: "c # xs = ascii ''PRESERVED_'' @ ds @ rest" and ne: "ds \<noteq> []"
    and dig: "\<forall>c\<in>set ds. ascii_digit c" by blast
  from ne obtain d ds' where ds: "ds = d # ds'" by (cases ds) auto
  from t ds have "xs = ascii ''RESERVED_'' @ d # ds' @ rest" by (simp add: prefix_Cons)
  moreover have "length (ascii ''RESERVED_'') = 9" by (simp add: ascii_def)
  ultimately have "take 10 xs = ascii ''RESERVED_'' @ [d]" by simp
  moreover have "80 \<notin> set (ascii ''RESERVED_'')" by (simp add: ascii_def)
  moreover from dig ds have "d \<noteq> 80" by (auto dest: digit_not_P)
  ultimately show ?thesis by simp
qed

lemma sub_loop_plain_token:
  assumes "token_at (c # cs) = None"
  shows "token_at (c # fst (sub_loop r (Some c) cs 0 ps)) = None"
proof (rule ccontr)
  let ?out = "fst (sub_loop r (Some c) cs 0 ps)"
  assume a: "token_at (c # ?out) \<noteq> None"
  from token_no_P [OF a] have "take 10 cs = take 10 ?out" by (rule sub_loop_prefix)
  then have "take 11 (c # cs) = take 11 (c # ?out)" by simp
  from token_at_cong [OF this] assms a show False by simp
qed

lemma sub_loop_tokens:
  assumes del: "delimited U r"
  shows "sub_loop r prev t 0 ps = (out, ps') \<Longrightarrow>
    \<forall>k\<in>set (placeholder_indices t). k < length ps \<Longrightarrow>
    \<exists>news. ps' = ps @ news \<and>
      concat (map (unmask (length ps) news) (tokens out)) = tokens t \<and>
      filter (\<lambda>k. length ps \<le> k) (placeholder_indices out) =
        [length ps..<length ps + length news]"
proof (induction "length t" arbitrary: t prev ps out ps' rule: less_induct)
  case less
  note run = less.prems(1) and old = less.prems(2)
  let ?b = "length ps"
  show ?case
  proof (cases t)
    case Nil
    with run have "out = []" "ps' = ps" by simp_all
    with Nil show ?thesis by (simp add: tokens_Nil placeholder_indices_def)
  next
    case (Cons c cs)
    show ?thesis
    proof (cases "rx_match r prev t")
      case (Some n)
      note d = delimitedD [OF del Some]
      let ?rest = "drop n t" and ?found = "take n t"
      define out' where "out' = fst (sub_loop r (Some (t ! (n - 1))) ?rest 0 (ps @ [?found]))"
      have out': "sub_loop r (Some (t ! (n - 1))) ?rest 0 (ps @ [?found]) = (out', ps')"
        and out: "out = marker ?b @ out'"
        using sub_loop_match [OF Some d(1) d(2), of ps] run unfolding out'_def by simp_all
      have "\<forall>j<length ?found. token_at (drop j (?found @ ?rest)) = None"
        using delimited_no_token_in_match [OF del Some] by simp
      from tokens_plain_run [OF this] have tt: "tokens t = map Plain ?found @ tokens ?rest" by simp
      then have it: "placeholder_indices t = placeholder_indices ?rest"
        by (simp add: placeholder_indices_def indices_Plain)
      have shorter: "length ?rest < length t" using d(1) Cons by simp
      have old': "\<forall>k\<in>set (placeholder_indices ?rest). k < length (ps @ [?found])"
        using old it by auto
      from less.hyps [OF shorter out' old'] obtain news where
        n1: "ps' = (ps @ [?found]) @ news"
        and n2': "concat (map (unmask (length (ps @ [?found])) news) (tokens out')) = tokens ?rest"
        and n3': "filter (\<lambda>k. length (ps @ [?found]) \<le> k) (placeholder_indices out') =
          [length (ps @ [?found])..<length (ps @ [?found]) + length news]"
        by blast
      have n2: "concat (map (unmask (Suc ?b) news) (tokens out')) = tokens ?rest"
        using n2' by simp
      have n3: "filter (\<lambda>k. Suc ?b \<le> k) (placeholder_indices out') =
          [Suc ?b..<Suc ?b + length news]"
        using n3' by simp
      have "?rest = [] \<or> \<not> ascii_digit (hd ?rest)"
      proof (cases "n = length t")
        case False
        with d(2,4) have "\<not> is_word U (t ! n)" "n < length t" by simp_all
        then show ?thesis using ascii_digit_word by (auto simp: hd_drop_conv_nth)
      qed simp
      then have "out' = [] \<or> \<not> ascii_digit (hd out')"
        using sub_loop_no_digit_first [of ?rest r "Some (t ! (n - 1))" "ps @ [?found]"] out'
        by simp
      from tokens_marker [OF this] out have to: "tokens out = Placeholder ?b # tokens out'"
        by simp
      have fresh: "Placeholder ?b \<notin> set (tokens out')"
      proof
        assume "Placeholder ?b \<in> set (tokens out')"
        then have "Placeholder ?b \<in> set (concat (map (unmask (Suc ?b) news) (tokens out')))"
          by (rule unmask_keeps) simp
        with n2 have "?b \<in> set (placeholder_indices ?rest)" by (simp add: indices_iff)
        with old it show False by auto
      qed
      then have nb: "?b \<notin> set (placeholder_indices out')" by (simp add: indices_iff)
      have e1: "ps' = ps @ (?found # news)" using n1 by simp
      have sh: "map (unmask ?b (?found # news)) (tokens out') =
          map (unmask (Suc ?b) news) (tokens out')"
        by (rule unmask_shift [OF fresh])
      have "concat (map (unmask ?b (?found # news)) (tokens out)) =
          map Plain ?found @ concat (map (unmask ?b (?found # news)) (tokens out'))"
        using to by simp
      also have "\<dots> = map Plain ?found @ concat (map (unmask (Suc ?b) news) (tokens out'))"
        by (simp only: sh)
      also have "\<dots> = tokens t" using n2 tt by simp
      finally have e2: "concat (map (unmask ?b (?found # news)) (tokens out)) = tokens t" .
      have "filter (\<lambda>k. ?b \<le> k) (placeholder_indices out') =
          filter (\<lambda>k. Suc ?b \<le> k) (placeholder_indices out')"
        using nb by (intro filter_cong) (auto simp: Suc_le_eq le_less)
      then have f: "filter (\<lambda>k. ?b \<le> k) (placeholder_indices out') =
          [Suc ?b..<Suc ?b + length news]"
        by (simp only: n3)
      have up: "[?b..<Suc ?b + length news] = ?b # [Suc ?b..<Suc ?b + length news]"
        by (rule upt_conv_Cons) simp
      have len: "?b + length (?found # news) = Suc ?b + length news" by simp
      have "placeholder_indices out = ?b # placeholder_indices out'"
        using to by (simp add: placeholder_indices_def)
      then have "filter (\<lambda>k. ?b \<le> k) (placeholder_indices out) =
          ?b # filter (\<lambda>k. ?b \<le> k) (placeholder_indices out')"
        by simp
      also have "\<dots> = ?b # [Suc ?b..<Suc ?b + length news]" by (simp only: f)
      also have "\<dots> = [?b..<?b + length (?found # news)]" by (simp only: up len)
      finally have e3: "filter (\<lambda>k. ?b \<le> k) (placeholder_indices out) =
          [?b..<?b + length (?found # news)]" .
      show ?thesis by (intro exI [of _ "?found # news"] conjI e1 e2 e3)
    next
      case None
      show ?thesis
      proof (cases "token_at t")
        case (Some kn)
        then obtain k n where tk: "token_at t = Some (k, n)" by (cases kn) auto
        from token_at_Some [OF tk] have n10: "10 < n" and nl: "n \<le> length t"
          and stop: "n = length t \<or> \<not> ascii_digit (t ! n)" by blast+
        let ?rest = "drop n t"
        have nomatch: "\<forall>j<n. rx_match r (if j = 0 then prev else Some (t ! (j - 1))) (drop j t) = None"
          using delimited_no_match_in_token [OF del tk] by blast
        define out' where "out' = fst (sub_loop r (Some (t ! (n - 1))) ?rest 0 ps)"
        have out': "sub_loop r (Some (t ! (n - 1))) ?rest 0 ps = (out', ps')"
          and out: "out = take n t @ out'"
          using sub_loop_copy_run [OF nl nomatch, of ps] run n10 unfolding out'_def by simp_all
        have tt: "tokens t = Placeholder k # tokens ?rest" by (rule tokens_token [OF tk])
        then have kin: "k \<in> set (placeholder_indices t)" by (simp add: indices_iff)
        with old have kb: "k < ?b" by blast
        have it: "placeholder_indices t = k # placeholder_indices ?rest"
          using tt by (simp add: placeholder_indices_def)
        have shorter: "length ?rest < length t" using n10 nl by simp
        have old': "\<forall>k\<in>set (placeholder_indices ?rest). k < length ps"
          using old it by auto
        from less.hyps [OF shorter out' old'] obtain news where
          n1: "ps' = ps @ news"
          and n2: "concat (map (unmask ?b news) (tokens out')) = tokens ?rest"
          and n3: "filter (\<lambda>k. ?b \<le> k) (placeholder_indices out') = [?b..<?b + length news]"
          by blast
        have "?rest = [] \<or> \<not> ascii_digit (hd ?rest)"
          using stop nl by (auto simp: hd_drop_conv_nth)
        then have "out' = [] \<or> \<not> ascii_digit (hd out')"
          using sub_loop_no_digit_first [of ?rest r "Some (t ! (n - 1))" ps] out' by simp
        from token_at_extend [OF tk this] have "token_at out = Some (k, n)" using out by simp
        from tokens_token [OF this] have to: "tokens out = Placeholder k # tokens out'"
          using out nl by simp
        have e2: "concat (map (unmask ?b news) (tokens out)) = tokens t"
          using to tt n2 kb by simp
        have e3: "filter (\<lambda>k. ?b \<le> k) (placeholder_indices out) = [?b..<?b + length news]"
          using to n3 kb by (simp add: placeholder_indices_def)
        show ?thesis by (intro exI [of _ news] conjI n1 e2 e3)
      next
        case nt: None
        from None Cons have nomatch: "rx_match r prev (c # cs) = None" by simp
        define out' where "out' = fst (sub_loop r (Some c) cs 0 ps)"
        from run have "sub_loop r prev (c # cs) 0 ps = (out, ps')" unfolding Cons .
        with sub_loop_copy [OF nomatch, of ps, symmetric]
        have "(c # fst (sub_loop r (Some c) cs 0 ps), snd (sub_loop r (Some c) cs 0 ps)) = (out, ps')"
          by (rule trans)
        then have out': "sub_loop r (Some c) cs 0 ps = (out', ps')"
          and out: "out = c # out'"
          unfolding out'_def by auto
        from nt Cons have tt: "tokens t = Plain c # tokens cs" by (simp add: tokens_plain)
        then have it: "placeholder_indices t = placeholder_indices cs"
          by (simp add: placeholder_indices_def)
        have "token_at (c # fst (sub_loop r (Some c) cs 0 ps)) = None"
          using nt Cons by (intro sub_loop_plain_token) simp
        with out' out have to: "tokens out = Plain c # tokens out'" by (simp add: tokens_plain)
        have shorter: "length cs < length t" using Cons by simp
        have old': "\<forall>k\<in>set (placeholder_indices cs). k < length ps" using old it by simp
        from less.hyps [OF shorter out' old'] obtain news where
          n1: "ps' = ps @ news"
          and n2: "concat (map (unmask ?b news) (tokens out')) = tokens cs"
          and n3: "filter (\<lambda>k. ?b \<le> k) (placeholder_indices out') = [?b..<?b + length news]"
          by blast
        have e2: "concat (map (unmask ?b news) (tokens out)) = tokens t"
          using to tt n2 by simp
        have e3: "filter (\<lambda>k. ?b \<le> k) (placeholder_indices out) = [?b..<?b + length news]"
          using to n3 by (simp add: placeholder_indices_def)
        show ?thesis by (intro exI [of _ news] conjI n1 e2 e3)
      qed
    qed
  qed
qed

subsection \<open>The terms of a substitution\<close>

lemma sub_loop_terms:
  "snd (sub_loop r prev t skip ps) = ps @ snd (sub_loop r prev t skip [])"
proof (induction t arbitrary: prev skip ps)
  case Nil
  show ?case by simp
next
  case (Cons c cs)
  show ?case
  proof (cases "0 < skip")
    case True
    then show ?thesis using Cons.IH [of "Some c" "skip - 1" ps] by simp
  next
    case False
    show ?thesis
    proof (cases "rx_match r prev (c # cs)")
      case None
      with False show ?thesis using Cons.IH [of "Some c" 0 ps] by (simp add: case_prod_beta)
    next
      case (Some n)
      let ?found = "take n (c # cs)"
      have "snd (sub_loop r prev (c # cs) skip ps) =
          snd (sub_loop r (Some c) cs (n - 1) (ps @ [?found]))"
        using False Some by (simp add: case_prod_beta preserve_term_def)
      also have "\<dots> = (ps @ [?found]) @ snd (sub_loop r (Some c) cs (n - 1) [])"
        by (rule Cons.IH)
      also have "\<dots> = ps @ ([?found] @ snd (sub_loop r (Some c) cs (n - 1) []))" by simp
      also have "[?found] @ snd (sub_loop r (Some c) cs (n - 1) []) =
          snd (sub_loop r (Some c) cs (n - 1) [?found])"
        by (rule Cons.IH [symmetric])
      also have "snd (sub_loop r (Some c) cs (n - 1) [?found]) =
          snd (sub_loop r prev (c # cs) skip [])"
        using False Some by (simp add: case_prod_beta preserve_term_def)
      finally show ?thesis .
    qed
  qed
qed

lemma sub_loop_terms_shape:
  assumes "\<And>prev t n. rx_match r prev t = Some n \<Longrightarrow> Q (take n t)"
  shows "\<forall>x\<in>set ps. Q x \<Longrightarrow> \<forall>x\<in>set (snd (sub_loop r prev t skip ps)). Q x"
proof (induction t arbitrary: prev skip ps)
  case Nil
  then show ?case by simp
next
  case (Cons c cs)
  show ?case
  proof (cases "0 < skip")
    case True
    then show ?thesis using Cons.IH [OF Cons.prems, of "Some c" "skip - 1"] by simp
  next
    case False
    show ?thesis
    proof (cases "rx_match r prev (c # cs)")
      case None
      with False show ?thesis
        using Cons.IH [OF Cons.prems, of "Some c" 0] by (simp add: case_prod_beta)
    next
      case (Some n)
      let ?found = "take n (c # cs)"
      from assms [OF Some] Cons.prems have "\<forall>x\<in>set (ps @ [?found]). Q x" by simp
      from Cons.IH [OF this, of "Some c" "n - 1"] False Some show ?thesis
        by (simp add: case_prod_beta preserve_term_def)
    qed
  qed
qed

lemma proper_noun_match_shape:
  assumes "rx_match (proper_noun_pattern U) prev t = Some n"
  shows "capitalised_word (take n t)"
proof -
  from assms have "n \<in> set (proper_noun_pattern U prev t 0)"
    by (auto simp: rx_match_def split: list.splits)
  then have body: "n \<in> set (proper_noun_body prev t 0)" by (simp add: proper_noun_pattern_iff)
  from proper_noun_body_within body have le: "n \<le> length t"
    and inside: "\<forall>j. j < n \<longrightarrow> is_letter (t ! j)"
    unfolding rx_within_def by blast+
  from proper_noun_body_ends body have pos: "0 < n" unfolding rx_ends_def by blast
  from body have up: "is_upper (t ! 0)"
    by (auto simp: proper_noun_body_def rx_seq_iff rx_cls_iff)
  from pos le have ne: "take n t \<noteq> []" by auto
  from pos le have hd: "hd (take n t) = t ! 0" by (cases t) (auto simp: take_Suc_conv_app_nth)
  have "list_all is_letter (take n t)"
    using inside le by (auto simp: list_all_iff in_set_conv_nth)
  with ne hd up show ?thesis by (simp add: capitalised_word_def)
qed

lemma number_match_shape:
  assumes "rx_match (number_pattern U) prev t = Some n"
  shows "numeric_token U (take n t)"
proof -
  from assms have "n \<in> set (number_pattern U prev t 0)"
    by (auto simp: rx_match_def split: list.splits)
  then have body: "n \<in> set (number_body U prev t 0)" by (simp add: number_pattern_iff)
  from number_body_within body have le: "n \<le> length t"
    and inside: "\<forall>j. j < n \<longrightarrow> is_digit U (t ! j) \<or> is_sep (t ! j)"
    unfolding rx_within_def by blast+
  from number_body_ends body have pos: "0 < n" and en: "is_digit U (t ! (n - 1))"
    unfolding rx_ends_def by blast+
  from body have st: "is_digit U (t ! 0)"
    by (auto simp: number_body_def rx_plus_def rx_seq_iff rx_cls_iff)
  from pos le have ne: "take n t \<noteq> []" by auto
  from pos le have hd: "hd (take n t) = t ! 0" by (cases t) (auto simp: take_Suc_conv_app_nth)
  from pos le ne have la: "last (take n t) = t ! (n - 1)" by (simp add: last_conv_nth)
  have "list_all (\<lambda>c. is_digit U c \<or> is_sep c) (take n t)"
    unfolding list_all_iff
  proof
    fix c
    assume "c \<in> set (take n t)"
    then obtain j where "j < length (take n t)" "take n t ! j = c"
      by (auto simp: in_set_conv_nth)
    with le have "j < n" "t ! j = c" by simp_all
    with inside show "is_digit U c \<or> is_sep c" by blast
  qed
  with ne hd la st en show ?thesis by (simp add: numeric_token_def)
qed

subsection \<open>The invariant of the preserved terms\<close>

lemma tokens_no_placeholder:
  "placeholder_indices t = [] \<Longrightarrow> tokens t = map Plain t"
proof (induction t)
  case Nil
  then show ?case by (simp add: tokens_Nil)
next
  case (Cons c cs)
  have nt: "token_at (c # cs) = None"
  proof (rule ccontr)
    assume "token_at (c # cs) \<noteq> None"
    then obtain k n where "token_at (c # cs) = Some (k, n)" by auto
    from tokens_token [OF this] Cons.prems show False
      by (simp add: placeholder_indices_def)
  qed
  then have tt: "tokens (c # cs) = Plain c # tokens cs" by (rule tokens_plain)
  with Cons.prems have "placeholder_indices cs = []" by (simp add: placeholder_indices_def)
  with Cons.IH tt show ?case by simp
qed

lemma unmask_old_indices:
  "filter (\<lambda>k. k < b) (concat (map index_of (concat (map (unmask b news) toks)))) =
   filter (\<lambda>k. k < b) (concat (map index_of toks))"
proof (induction toks)
  case Nil
  then show ?case by simp
next
  case (Cons tok toks)
  have "filter (\<lambda>k. k < b) (concat (map index_of (unmask b news tok))) =
      filter (\<lambda>k. k < b) (index_of tok)"
    by (cases tok) (auto simp: indices_Plain)
  with Cons.IH show ?case by simp
qed

lemma term_of_Plain: "concat (map (term_of P) (map Plain xs)) = xs"
  by (induction xs) simp_all

lemma unmask_term_of:
  assumes "b + length news \<le> length P" "\<forall>i<length news. P ! (b + i) = news ! i"
  shows "concat (map (term_of P) (concat (map (unmask b news) toks))) =
    concat (map (term_of P) toks)"
proof (induction toks)
  case Nil
  then show ?case by simp
next
  case (Cons tok toks)
  have "concat (map (term_of P) (unmask b news tok)) = term_of P tok"
  proof (cases tok)
    case (Placeholder k)
    show ?thesis
    proof (cases "b \<le> k \<and> k < b + length news")
      case True
      then have kb: "k - b < length news" and kk: "b + (k - b) = k" by linarith+
      from assms(2) kb have "P ! (b + (k - b)) = news ! (k - b)" by blast
      then have "P ! k = news ! (k - b)" unfolding kk .
      with True assms(1) Placeholder show ?thesis by (simp add: term_of_Plain del: map_map)
    next
      case False
      with Placeholder show ?thesis by auto
    qed
  qed simp
  with Cons.IH show ?case by simp
qed

lemma distinct_partition:
  "distinct (filter P xs) \<Longrightarrow> distinct (filter (\<lambda>x. \<not> P x) xs) \<Longrightarrow> distinct xs"
  by (induction xs) (auto split: if_splits)

lemma preserve_placeholders_aux:
  assumes free: "placeholder_indices t = []"
    and p1: "sub_loop (proper_noun_pattern U) None t 0 [] = (m1, ps1)"
    and p2: "sub_loop (number_pattern U) None m1 0 ps1 = (m, ps)"
  shows "length ps1 \<le> length ps \<and> take (length ps1) ps = ps1 \<and>
    filter (\<lambda>k. k < length ps1) (placeholder_indices m) = [0..<length ps1] \<and>
    filter (\<lambda>k. length ps1 \<le> k) (placeholder_indices m) = [length ps1..<length ps] \<and>
    expand ps m = t"
proof -
  let ?n1 = "length ps1"
  from free have old1: "\<forall>k\<in>set (placeholder_indices t). k < length ([] :: ustring list)" by simp
  from sub_loop_tokens [OF delimited_proper_noun p1 old1] obtain news1 where
    a1: "ps1 = [] @ news1"
    and a2: "concat (map (unmask (length ([] :: ustring list)) news1) (tokens m1)) = tokens t"
    and a3: "filter (\<lambda>k. length ([] :: ustring list) \<le> k) (placeholder_indices m1) =
      [length ([] :: ustring list)..<length ([] :: ustring list) + length news1]"
    by blast
  from a1 have n1: "news1 = ps1" by simp
  from a3 n1 have i1: "placeholder_indices m1 = [0..<?n1]" by simp
  from a2 n1 have u1: "concat (map (unmask 0 ps1) (tokens m1)) = tokens t" by simp
  from i1 have old2: "\<forall>k\<in>set (placeholder_indices m1). k < ?n1" by simp
  from sub_loop_tokens [OF delimited_number p2 old2] obtain news2 where
    b1: "ps = ps1 @ news2"
    and u2: "concat (map (unmask ?n1 news2) (tokens m)) = tokens m1"
    and b3: "filter (\<lambda>k. ?n1 \<le> k) (placeholder_indices m) = [?n1..<?n1 + length news2]"
    by blast
  from b1 have len: "length ps = ?n1 + length news2" by simp
  have "filter (\<lambda>k. k < ?n1) (placeholder_indices m) =
      filter (\<lambda>k. k < ?n1) (concat (map index_of (concat (map (unmask ?n1 news2) (tokens m)))))"
    unfolding placeholder_indices_def by (rule unmask_old_indices [symmetric])
  also have "\<dots> = filter (\<lambda>k. k < ?n1) (placeholder_indices m1)"
    unfolding u2 placeholder_indices_def ..
  also have "\<dots> = [0..<?n1]" unfolding i1 by simp
  finally have lo: "filter (\<lambda>k. k < ?n1) (placeholder_indices m) = [0..<?n1]" .
  have hi: "filter (\<lambda>k. ?n1 \<le> k) (placeholder_indices m) = [?n1..<length ps]"
    using b3 len by simp
  have "expand ps m = concat (map (term_of ps) (concat (map (unmask ?n1 news2) (tokens m))))"
    unfolding expand_def
    by (rule unmask_term_of [symmetric]) (simp_all add: b1 nth_append)
  also have "\<dots> = concat (map (term_of ps) (tokens m1))" unfolding u2 ..
  also have "\<dots> = concat (map (term_of ps) (concat (map (unmask 0 ps1) (tokens m1))))"
    by (rule unmask_term_of [symmetric]) (simp_all add: b1 nth_append)
  also have "\<dots> = concat (map (term_of ps) (tokens t))" unfolding u1 ..
  also have "\<dots> = t" unfolding tokens_no_placeholder [OF free] by (rule term_of_Plain)
  finally have ex: "expand ps m = t" .
  from b1 have "take ?n1 ps = ps1" by simp
  with len lo hi ex show ?thesis by simp
qed

text \<open>
  Claim C7, as amended. For every input text that shows no placeholder (no
  \<open>PRESERVED_\<close> followed by a digit), after preservation: the placeholder indices of
  the masked text are exactly \<open>0\<close> to \<open>N - 1\<close>, each once, \<open>N\<close> being the length of the
  preserved list; the placeholder of index \<open>i\<close> stands for the \<open>i\<close>-th preserved term
  (putting the terms in the place of their placeholders gives the input back); and the
  indices follow the order of appearance within each pass, not in the text: for some
  \<open>n\<close>, the first \<open>n\<close> terms are the matches of the capitalised-word pattern in the
  input, from the left, each an upper-case letter followed by letters; the terms from
  \<open>n\<close> on are the matches of the number pattern in the text whose capitalised words are
  masked, from the left, each starting and ending with a digit and made of digits and
  the separators \<open>-\<close>, \<open>/\<close>, \<open>.\<close>; the placeholders of the indices below \<open>n\<close> appear in the
  masked text in increasing order, and so do those of the indices from \<open>n\<close> on.
\<close>

theorem preserve_placeholders:
  assumes "placeholder_indices t = []"
    and "preserve_special_terms U t = (masked, preserved)"
  shows "set (placeholder_indices masked) = {0..<length preserved} \<and>
    distinct (placeholder_indices masked) \<and>
    expand preserved masked = t \<and>
    (\<exists>n. n \<le> length preserved \<and>
       take n preserved = snd (re_sub (proper_noun_pattern U) t []) \<and>
       drop n preserved =
         snd (re_sub (number_pattern U) (fst (re_sub (proper_noun_pattern U) t [])) []) \<and>
       (\<forall>x\<in>set (take n preserved). capitalised_word x) \<and>
       (\<forall>x\<in>set (drop n preserved). numeric_token U x) \<and>
       filter (\<lambda>k. k < n) (placeholder_indices masked) = [0..<n] \<and>
       filter (\<lambda>k. n \<le> k) (placeholder_indices masked) = [n..<length preserved])"
proof -
  obtain m1 ps1 where p1: "sub_loop (proper_noun_pattern U) None t 0 [] = (m1, ps1)"
    by (cases "sub_loop (proper_noun_pattern U) None t 0 []")
  with assms(2) have p2: "sub_loop (number_pattern U) None m1 0 ps1 = (masked, preserved)"
    by (simp add: preserve_special_terms_def re_sub_def)
  let ?n = "length ps1" and ?xs = "placeholder_indices masked"
  let ?ps2 = "snd (sub_loop (number_pattern U) None m1 0 [])"
  from preserve_placeholders_aux [OF assms(1) p1 p2] have
    le: "?n \<le> length preserved" and tk: "take ?n preserved = ps1"
    and lo: "filter (\<lambda>k. k < ?n) ?xs = [0..<?n]"
    and hi: "filter (\<lambda>k. ?n \<le> k) ?xs = [?n..<length preserved]"
    and ex: "expand preserved masked = t"
    by blast+
  have hi': "filter (\<lambda>k. \<not> k < ?n) ?xs = [?n..<length preserved]"
    using hi by (simp add: not_less)
  have "set ?xs = set (filter (\<lambda>k. k < ?n) ?xs) \<union> set (filter (\<lambda>k. \<not> k < ?n) ?xs)"
    by auto
  also have "\<dots> = {0..<?n} \<union> {?n..<length preserved}" unfolding lo hi' by simp
  also have "\<dots> = {0..<length preserved}" using le by auto
  finally have s: "set ?xs = {0..<length preserved}" .
  have d: "distinct ?xs"
    by (rule distinct_partition [where P = "\<lambda>k. k < ?n"]) (simp_all add: lo hi')
  have r: "snd (re_sub (proper_noun_pattern U) t []) = ps1"
    using p1 by (simp add: re_sub_def)
  have "preserved = snd (sub_loop (number_pattern U) None m1 0 ps1)" using p2 by simp
  also have "\<dots> = ps1 @ ?ps2" by (rule sub_loop_terms)
  finally have "drop ?n preserved = ?ps2" by simp
  then have dr: "drop ?n preserved =
      snd (re_sub (number_pattern U) (fst (re_sub (proper_noun_pattern U) t [])) [])"
    using p1 by (simp add: re_sub_def)
  have "\<forall>x\<in>set (snd (sub_loop (proper_noun_pattern U) None t 0 [])). capitalised_word x"
    by (rule sub_loop_terms_shape [where Q = capitalised_word])
      (simp_all add: proper_noun_match_shape)
  then have c1: "\<forall>x\<in>set (take ?n preserved). capitalised_word x" using p1 tk by simp
  have "\<forall>x\<in>set ?ps2. numeric_token U x"
    by (rule sub_loop_terms_shape [where Q = "numeric_token U"])
      (simp_all add: number_match_shape)
  then have c2: "\<forall>x\<in>set (drop ?n preserved). numeric_token U x"
    using \<open>drop ?n preserved = ?ps2\<close> by simp
  from le tk r dr c1 c2 lo hi have
    "?n \<le> length preserved \<and>
       take ?n preserved = snd (re_sub (proper_noun_pattern U) t []) \<and>
       drop ?n preserved =
         snd (re_sub (number_pattern U) (fst (re_sub (proper_noun_pattern U) t [])) []) \<and>
       (\<forall>x\<in>set (take ?n preserved). capitalised_word x) \<and>
       (\<forall>x\<in>set (drop ?n preserved). numeric_token U x) \<and>
       filter (\<lambda>k. k < ?n) (placeholder_indices masked) = [0..<?n] \<and>
       filter (\<lambda>k. ?n \<le> k) (placeholder_indices masked) = [?n..<length preserved]"
    by simp
  then have "\<exists>n. n \<le> length preserved \<and>
       take n preserved = snd (re_sub (proper_noun_pattern U) t []) \<and>
       drop n preserved =
         snd (re_sub (number_pattern U) (fst (re_sub (proper_noun_pattern U) t [])) []) \<and>
       (\<forall>x\<in>set (take n preserved). capitalised_word x) \<and>
       (\<forall>x\<in>set (drop n preserved). numeric_token U x) \<and>
       filter (\<lambda>k. k < n) (placeholder_indices masked) = [0..<n] \<and>
       filter (\<lambda>k. n \<le> k) (placeholder_indices masked) = [n..<length preserved]"
    by (rule exI)
  with s d ex show ?thesis by simp
qed

lemma indices_five_John: "placeholder_indices (ascii ''5 John'') = []"
  by code_simp

lemma preserve_five_John:
  "preserve_special_terms ascii_db (ascii ''5 John'') =
     (ascii ''PRESERVED_1 PRESERVED_0'', [ascii ''John'', ascii ''5''])"
  by code_simp

lemma indices_one_zero: "placeholder_indices (ascii ''PRESERVED_1 PRESERVED_0'') = [1, 0]"
  by code_simp

theorem preserve_placeholders_witness:
  "placeholder_indices (ascii ''5 John'') = [] \<and>
   preserve_special_terms ascii_db (ascii ''5 John'') =
     (ascii ''PRESERVED_1 PRESERVED_0'', [ascii ''John'', ascii ''5'']) \<and>
   placeholder_indices (ascii ''PRESERVED_1 PRESERVED_0'') = [1, 0] \<and>
   set (placeholder_indices (ascii ''PRESERVED_1 PRESERVED_0'')) = {0..<2} \<and>
   expand [ascii ''John'', ascii ''5''] (ascii ''PRESERVED_1 PRESERVED_0'') = ascii ''5 John''"
proof -
  note th = preserve_placeholders [OF indices_five_John preserve_five_John]
  have s: "set (placeholder_indices (ascii ''PRESERVED_1 PRESERVED_0'')) =
      {0..<length [ascii ''John'', ascii ''5'']}"
    by (rule th [THEN conjunct1])
  have e: "expand [ascii ''John'', ascii ''5''] (ascii ''PRESERVED_1 PRESERVED_0'') = ascii ''5 John''"
    by (rule th [THEN conjunct2, THEN conjunct2, THEN conjunct1])
  have "length [ascii ''John'', ascii ''5''] = 2" by simp
  with s have s2: "set (placeholder_indices (ascii ''PRESERVED_1 PRESERVED_0'')) = {0..<2}"
    by (simp only:)
  from indices_five_John preserve_five_John indices_one_zero s2 e show ?thesis
    by (intro conjI)
qed

theorem preserve_placeholders_counterexample:
  "preserve_special_terms ascii_db (ascii ''PRESERVED_5 John'') =
     (ascii ''PRESERVED_5 PRESERVED_0'', [ascii ''John'']) \<and>
   placeholder_indices (ascii ''PRESERVED_5 PRESERVED_0'') = [5, 0] \<and>
   set (placeholder_indices (fst (preserve_special_terms ascii_db (ascii ''PRESERVED_5 John'')))) \<noteq>
     {0..<length (snd (preserve_special_terms ascii_db (ascii ''PRESERVED_5 John'')))} \<and>
   preserve_special_terms ascii_db (ascii ''PRESERVED_0 John'') =
     (ascii ''PRESERVED_0 PRESERVED_0'', [ascii ''John''])"
proof -
  have a: "preserve_special_terms ascii_db (ascii ''PRESERVED_5 John'') =
     (ascii ''PRESERVED_5 PRESERVED_0'', [ascii ''John''])"
    by code_simp
  have b: "placeholder_indices (ascii ''PRESERVED_5 PRESERVED_0'') = [5, 0]"
    by code_simp
  have c: "preserve_special_terms ascii_db (ascii ''PRESERVED_0 John'') =
     (ascii ''PRESERVED_0 PRESERVED_0'', [ascii ''John''])"
    by code_simp
  have "set [5, 0 :: nat] \<noteq> {0..<1}" by auto
  with a b c show ?thesis by simp
qed

end
